theory Spec2Isabelle
  imports Complex_Main "HOL-Library.Char_ord" "HOL-Library.List_Lexorder"
begin

section \<open>Shared data model\<close>

text \<open>
  The Python sources compute with floats (IEEE 754 doubles). A float is a value of a type
  \<open>'f\<close>, and every literal and operation that the sources apply to floats is a field of a
  record of type \<open>'f arith\<close>, which the model of each function takes as its first argument:
  \<open>f_add\<close> is \<open>+\<close>, \<open>f_sub\<close> is \<open>-\<close>, \<open>f_mul\<close> is \<open>*\<close>, \<open>f_abs\<close> is \<open>abs\<close>, \<open>f_hypot\<close> is
  \<open>math.hypot\<close>, and \<open>f_zero\<close>, \<open>f_half\<close>, \<open>f_tol\<close>, \<open>f_inf\<close> are \<open>0.0\<close>, \<open>0.5\<close>, \<open>1e-12\<close> and
  \<open>math.inf\<close>. The definitions assume nothing about these fields, so they hold for an
  arithmetic that rounds its results and overflows to infinity as the doubles do; a
  theorem that needs a property of the arithmetic states it as a hypothesis.

  In \<open>dijkstra\<close> and \<open>build_graph\<close> the comparisons \<open><\<close>, \<open><=\<close>, \<open>==\<close>, \<open>!=\<close> and \<open>min\<close> are
  those of the type \<open>'f\<close>, a linear order: the floats that are not NaN, ordered as Python
  orders them, \<open>0.0\<close> and \<open>-0.0\<close> being one value (they are \<open>==\<close> in Python and no operation
  of the sources tells them apart). In \<open>find_pivots\<close> the estimates may be infinite and the
  difference of two infinities is NaN, which compares false with everything; there the
  comparisons \<open><=\<close> and \<open><\<close> are the fields \<open>f_le\<close> and \<open>f_lt\<close>, about which nothing is assumed
  either.

  Exceptions are values: a function that can raise returns \<open>py_error + 'a\<close>, with \<open>Inl\<close>
  the exception.
\<close>

datatype py_error = KeyError | ValueError

record 'f arith =
  f_zero :: 'f
  f_inf :: 'f
  f_half :: 'f
  f_tol :: 'f
  f_add :: "'f \<Rightarrow> 'f \<Rightarrow> 'f"
  f_sub :: "'f \<Rightarrow> 'f \<Rightarrow> 'f"
  f_mul :: "'f \<Rightarrow> 'f \<Rightarrow> 'f"
  f_abs :: "'f \<Rightarrow> 'f"
  f_hypot :: "'f \<Rightarrow> 'f \<Rightarrow> 'f"
  f_le :: "'f \<Rightarrow> 'f \<Rightarrow> bool"
  f_lt :: "'f \<Rightarrow> 'f \<Rightarrow> bool"

text \<open>An adjacency list \<open>Dict[str, List[Tuple[str, float]]]\<close>: a map from a vertex to
  the ordered list of its (neighbour, weight) pairs.\<close>

type_synonym ('v, 'f) adjacency = "'v \<rightharpoonup> ('v \<times> 'f) list"

text \<open>The neighbour list of \<open>u\<close>, empty for a vertex that is not a key:
  \<open>edges.get(u, [])\<close>.\<close>

definition edges_get :: "('v, 'f) adjacency \<Rightarrow> 'v \<Rightarrow> ('v \<times> 'f) list" where
  "edges_get edges u = (case edges u of None \<Rightarrow> [] | Some es \<Rightarrow> es)"

section \<open>The shortest-path engine: \<open>dijkstra\<close>\<close>

text \<open>
  \<open>dijkstra\<close> is the same function in \<open>iot_routing_dijkstra.py\<close> (lines 131-247) and
  in \<open>dijistra2.py\<close> (lines 97-154); the two differ only in their debug printing, which
  is left out. Vertex ids are Python strings; the model takes any linearly ordered type
  \<open>'v\<close> (the order is the one \<open>heapq\<close> uses to compare the second component of its
  tuples), and \<open>string\<close> with its lexicographic order is the instance of the source.

  The heap \<open>pq\<close> is modelled by the list of its entries: \<open>heapq.heappush\<close> adds an
  entry, \<open>heapq.heappop\<close> removes and returns the least entry in the order of Python
  tuples (first the distance, then the vertex); the entries left are the same whatever
  the layout of the heap.
\<close>

definition tuple_le :: "'f::linorder \<times> 'v::linorder \<Rightarrow> 'f \<times> 'v \<Rightarrow> bool" where
  "tuple_le a b = (fst a < fst b \<or> (fst a = fst b \<and> snd a \<le> snd b))"

text \<open>The least entry of a non-empty heap with first entry \<open>a\<close> and further entries \<open>bs\<close>.\<close>

fun heap_min :: "'f::linorder \<times> 'v::linorder \<Rightarrow> ('f \<times> 'v) list \<Rightarrow> 'f \<times> 'v" where
  "heap_min a [] = a"
| "heap_min a (b # bs) = heap_min (if tuple_le a b then a else b) bs"

definition heappush :: "('f \<times> 'v) list \<Rightarrow> 'f \<times> 'v \<Rightarrow> ('f \<times> 'v) list" where
  "heappush pq a = a # pq"

text \<open>The working state of a query: \<open>dist\<close>, \<open>prev\<close> (a stored Python \<open>None\<close> is
  \<open>Some None\<close>; a missing key is \<open>None\<close>) and the heap.\<close>

type_synonym ('v, 'f) dstate = "('v \<rightharpoonup> 'f) \<times> ('v \<rightharpoonup> 'v option) \<times> ('f \<times> 'v) list"

text \<open>The inner loop \<open>for v, w in adj[u]\<close> (relaxation of the edges leaving \<open>u\<close>, popped
  with distance \<open>d\<close>): \<open>nd = d + w\<close> is a float addition, and \<open>dist[v]\<close> raises \<open>KeyError\<close>
  for a neighbour that is not a key.\<close>

fun relax ::
  "'f::linorder arith \<Rightarrow> 'f \<Rightarrow> 'v \<Rightarrow> 'v set \<Rightarrow> ('v \<times> 'f) list \<Rightarrow> ('v, 'f) dstate
     \<Rightarrow> py_error + ('v, 'f) dstate" where
  "relax ar d u banned [] st = Inr st"
| "relax ar d u banned ((v, w) # es) (dists, prevs, pq) =
     (if v \<in> banned then relax ar d u banned es (dists, prevs, pq)
      else (case dists v of
              None \<Rightarrow> Inl KeyError
            | Some dv \<Rightarrow>
                (let nd = f_add ar d w in
                 if nd < dv
                 then relax ar d u banned es
                        (dists(v \<mapsto> nd), prevs(v \<mapsto> Some u), heappush pq (nd, v))
                 else relax ar d u banned es (dists, prevs, pq))))"

text \<open>The main loop \<open>while pq\<close>. It returns the final \<open>dists\<close> and \<open>prevs\<close>. With a
  negative cycle the loop of the source never ends, so the function is partial:
  \<open>None\<close> is a run that does not return.\<close>

partial_function (option) dijkstra_loop ::
  "'f::linorder arith \<Rightarrow> ('v::linorder, 'f) adjacency \<Rightarrow> 'v \<Rightarrow> 'v set \<Rightarrow> ('v, 'f) dstate
     \<Rightarrow> (py_error + ('v \<rightharpoonup> 'f) \<times> ('v \<rightharpoonup> 'v option)) option" where
  "dijkstra_loop ar adj goal banned st =
     (case st of (dists, prevs, pq) \<Rightarrow>
        (case pq of
           [] \<Rightarrow> Some (Inr (dists, prevs))
         | a # bs \<Rightarrow>
          (case heap_min a bs of (d, u) \<Rightarrow>
          (let pq' = remove1 (d, u) pq in
          (case dists u of
             None \<Rightarrow> Some (Inl KeyError)
           | Some du \<Rightarrow>
               if d \<noteq> du \<or> u \<in> banned then dijkstra_loop ar adj goal banned (dists, prevs, pq')
               else if u = goal then Some (Inr (dists, prevs))
               else (case adj u of
                       None \<Rightarrow> Some (Inl KeyError)
                     | Some nbrs \<Rightarrow>
                         (case relax ar d u banned nbrs (dists, prevs, pq') of
                            Inl e \<Rightarrow> Some (Inl e)
                          | Inr st' \<Rightarrow> dijkstra_loop ar adj goal banned st')))))))"

text \<open>The reconstruction loop \<open>while cur is not None: path.append(cur); cur = prev[cur]\<close>.\<close>

partial_function (option) walk_back ::
  "('v \<rightharpoonup> 'v option) \<Rightarrow> 'v option \<Rightarrow> 'v list \<Rightarrow> (py_error + 'v list) option" where
  "walk_back prevs cur path =
     (case cur of
        None \<Rightarrow> Some (Inr path)
      | Some c \<Rightarrow>
          (case prevs c of
             None \<Rightarrow> Some (Inl KeyError)
           | Some p \<Rightarrow> walk_back prevs p (path @ [c])))"

text \<open>\<open>dijkstra(adj, start, goal, banned)\<close>; \<open>banned\<close> is \<open>Optional[Set[str]]\<close>, and
  \<open>if banned is None: banned = set()\<close>. Every distance starts as \<open>math.inf\<close>, that of
  \<open>start\<close> as \<open>0.0\<close>; after the loop, \<open>dist[goal] == math.inf\<close> gives \<open>(math.inf, [])\<close>.\<close>

definition banned_set :: "'v set option \<Rightarrow> 'v set" where
  "banned_set banned_arg = (case banned_arg of None \<Rightarrow> {} | Some b \<Rightarrow> b)"

definition dijkstra ::
  "'f::linorder arith \<Rightarrow> ('v::linorder, 'f) adjacency \<Rightarrow> 'v \<Rightarrow> 'v \<Rightarrow> 'v set option
     \<Rightarrow> (py_error + 'f \<times> 'v list) option" where
  "dijkstra ar adj start goal banned_arg =
     (let banned = banned_set banned_arg in
      if start \<in> banned \<or> goal \<in> banned then Some (Inr (f_inf ar, []))
      else if adj start = None \<or> adj goal = None then Some (Inr (f_inf ar, []))
      else
        (let dists = (map_option (\<lambda>_. f_inf ar) \<circ> adj)(start \<mapsto> f_zero ar);
             prevs = map_option (\<lambda>_. None) \<circ> adj;
             pq = [(f_zero ar, start)]
         in case dijkstra_loop ar adj goal banned (dists, prevs, pq) of
              None \<Rightarrow> None
            | Some (Inl e) \<Rightarrow> Some (Inl e)
            | Some (Inr (dists', prevs')) \<Rightarrow>
                (case dists' goal of
                   None \<Rightarrow> Some (Inl KeyError)
                 | Some c \<Rightarrow>
                     if c = f_inf ar then Some (Inr (f_inf ar, []))
                     else (case walk_back prevs' (Some goal) [] of
                             None \<Rightarrow> None
                           | Some (Inl e) \<Rightarrow> Some (Inl e)
                           | Some (Inr path) \<Rightarrow> Some (Inr (c, rev path))))))"

section \<open>Graph construction: \<open>build_graph\<close>\<close>

text \<open>
  A node is a frozen dataclass with an id, a position and a coverage radius. The radius is
  a \<open>float\<close> in \<open>iot_routing_dijkstra.py\<close> (\<open>('f, 'f) Node\<close>) and an \<open>Optional[float]\<close> in
  \<open>dijistra2.py\<close> (\<open>('f, 'f option) Node\<close>). The dictionary \<open>nodes\<close> is the list of its
  (key, node) items in insertion order, which is the order of \<open>list(nodes.keys())\<close>; the
  keys of a dictionary are distinct.
\<close>

record ('f, 'r) Node =
  node_id :: string
  node_x :: 'f
  node_y :: 'f
  node_r :: 'r

record 'f Path =
  path_id :: string
  start_id :: string
  end_id :: string
  path_length :: 'f

text \<open>\<open>math.hypot(a.x - b.x, a.y - b.y)\<close>.\<close>

definition euclid :: "'f arith \<Rightarrow> ('f, 'r) Node \<Rightarrow> ('f, 'r) Node \<Rightarrow> 'f" where
  "euclid ar a b = f_hypot ar (f_sub ar (node_x a) (node_x b)) (f_sub ar (node_y a) (node_y b))"

definition in_range :: "'f::linorder arith \<Rightarrow> ('f, 'f) Node \<Rightarrow> ('f, 'f) Node \<Rightarrow> bool" where
  "in_range ar src dst = (euclid ar src dst \<le> node_r src)"

text \<open>\<open>adj = {i: [] for i in ids}\<close> and \<open>adj[k].append(e)\<close>.\<close>

definition empty_adj :: "string list \<Rightarrow> (string, 'f) adjacency" where
  "empty_adj ids = (\<lambda>i. if i \<in> set ids then Some [] else None)"

definition adj_append ::
  "(string, 'f) adjacency \<Rightarrow> string \<Rightarrow> string \<times> 'f \<Rightarrow> py_error + (string, 'f) adjacency" where
  "adj_append adj k e = (case adj k of None \<Rightarrow> Inl KeyError | Some es \<Rightarrow> Inr (adj(k \<mapsto> es @ [e])))"

text \<open>The double loop \<open>for i in range(len(ids)): for j in range(i + 1, len(ids))\<close> of both
  files, over the nodes in key order, with the loop body as a parameter.\<close>

fun for_later :: "('n \<Rightarrow> 'n \<Rightarrow> 'a \<Rightarrow> py_error + 'a) \<Rightarrow> 'n \<Rightarrow> 'n list \<Rightarrow> 'a \<Rightarrow> py_error + 'a" where
  "for_later body u [] adj = Inr adj"
| "for_later body u (v # vs) adj =
     (case body u v adj of Inl e \<Rightarrow> Inl e | Inr adj' \<Rightarrow> for_later body u vs adj')"

fun for_pairs :: "('n \<Rightarrow> 'n \<Rightarrow> 'a \<Rightarrow> py_error + 'a) \<Rightarrow> 'n list \<Rightarrow> 'a \<Rightarrow> py_error + 'a" where
  "for_pairs body [] adj = Inr adj"
| "for_pairs body (u # us) adj =
     (case for_later body u us adj of Inl e \<Rightarrow> Inl e | Inr adj' \<Rightarrow> for_pairs body us adj')"

subsection \<open>\<open>iot_routing_dijkstra.py\<close>: modes \<open>both\<close> and \<open>either\<close>\<close>

text \<open>The body of the double loop (lines 87-113), with \<open>u\<close> the earlier node of the pair.
  The mode is tested inside the loop. The weight is \<open>0.5 * (w_uv + w_vu)\<close>: a float
  addition, then a float multiplication.\<close>

definition pair_body ::
  "'f::linorder arith \<Rightarrow> string \<Rightarrow> (('f, 'f) Node \<Rightarrow> ('f, 'f) Node \<Rightarrow> 'f)
     \<Rightarrow> ('f, 'f) Node \<Rightarrow> ('f, 'f) Node
     \<Rightarrow> (string, 'f) adjacency \<Rightarrow> py_error + (string, 'f) adjacency" where
  "pair_body ar mode weight_fn u v adj =
     (let d = euclid ar u v in
      if mode = ''both'' then
        (if d \<le> min (node_r u) (node_r v) then
           (let w_uv = weight_fn u v; w_vu = weight_fn v u;
                w = f_mul ar (f_half ar) (f_add ar w_uv w_vu) in
            case adj_append adj (node_id u) (node_id v, w) of
              Inl e \<Rightarrow> Inl e
            | Inr adj1 \<Rightarrow> adj_append adj1 (node_id v) (node_id u, w))
         else Inr adj)
      else if mode = ''either'' then
        (case (if in_range ar u v then adj_append adj (node_id u) (node_id v, weight_fn u v)
               else Inr adj) of
           Inl e \<Rightarrow> Inl e
         | Inr adj1 \<Rightarrow>
             (if in_range ar v u then adj_append adj1 (node_id v) (node_id u, weight_fn v u)
              else Inr adj1))
      else Inl ValueError)"

definition build_graph ::
  "'f::linorder arith \<Rightarrow> (string \<times> ('f, 'f) Node) list \<Rightarrow> string
     \<Rightarrow> (('f, 'f) Node \<Rightarrow> ('f, 'f) Node \<Rightarrow> 'f)
     \<Rightarrow> py_error + (string, 'f) adjacency" where
  "build_graph ar nodes mode weight_fn =
     for_pairs (pair_body ar mode weight_fn) (map snd nodes) (empty_adj (map fst nodes))"

subsection \<open>\<open>dijistra2.py\<close>: modes \<open>paths\<close> and \<open>range\<close>\<close>

text \<open>The loop \<open>for p in paths\<close> (lines 63-70); \<open>float(p.length)\<close> is the float
  \<open>p.length\<close> itself.\<close>

fun add_paths ::
  "string list \<Rightarrow> bool \<Rightarrow> 'f Path list \<Rightarrow> (string, 'f) adjacency
     \<Rightarrow> py_error + (string, 'f) adjacency" where
  "add_paths ids undirected [] adj = Inr adj"
| "add_paths ids undirected (p # ps) adj =
     (if start_id p \<notin> set ids \<or> end_id p \<notin> set ids then Inl KeyError
      else (case adj_append adj (start_id p) (end_id p, path_length p) of
              Inl e \<Rightarrow> Inl e
            | Inr adj1 \<Rightarrow>
                (case (if undirected then adj_append adj1 (end_id p) (start_id p, path_length p)
                       else Inr adj1) of
                   Inl e \<Rightarrow> Inl e
                 | Inr adj2 \<Rightarrow> add_paths ids undirected ps adj2)))"

text \<open>The body of the double loop in mode \<open>range\<close> (lines 77-87), with \<open>u\<close> the earlier
  node of the pair.\<close>

definition range_body ::
  "'f::linorder arith \<Rightarrow> (('f, 'f option) Node \<Rightarrow> ('f, 'f option) Node \<Rightarrow> 'f)
     \<Rightarrow> ('f, 'f option) Node \<Rightarrow> ('f, 'f option) Node
     \<Rightarrow> (string, 'f) adjacency \<Rightarrow> py_error + (string, 'f) adjacency" where
  "range_body ar weight_fn u v adj =
     (let d = euclid ar u v;
          ok_uv = (case node_r u of None \<Rightarrow> False | Some ru \<Rightarrow> d \<le> ru);
          ok_vu = (case node_r v of None \<Rightarrow> False | Some rv \<Rightarrow> d \<le> rv)
      in if ok_uv \<and> ok_vu then
           (let w_uv = weight_fn u v; w_vu = weight_fn v u;
                w = f_mul ar (f_half ar) (f_add ar w_uv w_vu) in
            case adj_append adj (node_id u) (node_id v, w) of
              Inl e \<Rightarrow> Inl e
            | Inr adj1 \<Rightarrow> adj_append adj1 (node_id v) (node_id u, w))
         else Inr adj)"

definition build_graph2 ::
  "'f::linorder arith \<Rightarrow> (string \<times> ('f, 'f option) Node) list \<Rightarrow> string \<Rightarrow> 'f Path list option
     \<Rightarrow> bool \<Rightarrow> (('f, 'f option) Node \<Rightarrow> ('f, 'f option) Node \<Rightarrow> 'f)
     \<Rightarrow> py_error + (string, 'f) adjacency" where
  "build_graph2 ar nodes mode paths undirected weight_fn =
     (let ids = map fst nodes; adj = empty_adj ids in
      if mode = ''paths'' then
        (case paths of
           None \<Rightarrow> Inl ValueError
         | Some ps \<Rightarrow> add_paths ids undirected ps adj)
      else if mode = ''range'' then for_pairs (range_body ar weight_fn) (map snd nodes) adj
      else Inl ValueError)"

section \<open>Pivot selection: \<open>find_pivots\<close>\<close>

text \<open>
  \<open>FindingPivots.py\<close>: vertices are integers, \<open>edges\<close> and \<open>d_hat\<close> are dictionaries
  (\<open>d_hat[v]\<close> raises \<open>KeyError\<close> on a missing key) and \<open>S\<close>, \<open>W\<close>, \<open>P\<close> are Python sets.
  A set is a HOL set; a loop over a set, whose order Python leaves open, is modelled by
  what it adds in all: the loop fails iff one of its iterations does. The cardinalities
  and \<open>k\<close> are Python integers, which are exact.
\<close>

type_synonym 'f Graph = "(int, 'f) adjacency"

text \<open>Lines 29-34 for one \<open>u\<close>: the vertices added to \<open>Wi\<close>. The tests are
  \<open>d_hat[u] + w_uv <= d_hat[v]\<close> and \<open>d_hat[u] + w_uv < B\<close>; both lookups of the first test
  are made for every edge.\<close>

fun relax_edges ::
  "'f arith \<Rightarrow> (int \<rightharpoonup> 'f) \<Rightarrow> 'f \<Rightarrow> int \<Rightarrow> (int \<times> 'f) list \<Rightarrow> int set \<Rightarrow> py_error + int set" where
  "relax_edges ar d_hat B u [] Wi = Inr Wi"
| "relax_edges ar d_hat B u ((v, w_uv) # es) Wi =
     (case d_hat u of
        None \<Rightarrow> Inl KeyError
      | Some du \<Rightarrow>
          (case d_hat v of
             None \<Rightarrow> Inl KeyError
           | Some dv \<Rightarrow>
               relax_edges ar d_hat B u es
                 (if f_le ar (f_add ar du w_uv) dv \<and> f_lt ar (f_add ar du w_uv) B
                  then insert v Wi else Wi)))"

text \<open>Lines 27-34: one layer, \<open>for u in Wi_1\<close>.\<close>

definition relax_layer ::
  "'f arith \<Rightarrow> 'f Graph \<Rightarrow> (int \<rightharpoonup> 'f) \<Rightarrow> 'f \<Rightarrow> int set \<Rightarrow> py_error + int set" where
  "relax_layer ar edges d_hat B Wi_1 =
     (if \<exists>u\<in>Wi_1. isl (relax_edges ar d_hat B u (edges_get edges u) {}) then Inl KeyError
      else Inr (\<Union>u\<in>Wi_1. projr (relax_edges ar d_hat B u (edges_get edges u) {})))"

text \<open>Lines 26-38: \<open>for _ in range(1, k + 1)\<close>, with the number of rounds left as the
  first argument.\<close>

fun relax_loop ::
  "nat \<Rightarrow> 'f arith \<Rightarrow> 'f Graph \<Rightarrow> (int \<rightharpoonup> 'f) \<Rightarrow> 'f \<Rightarrow> int set \<Rightarrow> int set \<Rightarrow> py_error + int set" where
  "relax_loop 0 ar edges d_hat B W Wi_1 = Inr W"
| "relax_loop (Suc n) ar edges d_hat B W Wi_1 =
     (case relax_layer ar edges d_hat B Wi_1 of
        Inl e \<Rightarrow> Inl e
      | Inr Wi \<Rightarrow>
          if Wi = {} then Inr (W \<union> Wi)
          else relax_loop n ar edges d_hat B (W \<union> Wi) Wi)"

text \<open>Lines 50-53 for one \<open>u\<close>: the list \<open>children[u]\<close>. The estimates are read only when
  \<open>v in W\<close> holds; the test is \<open>abs(d_hat[u] + w_uv - d_hat[v]) < 1e-12\<close>, that is
  \<open>abs((d_hat[u] + w_uv) - d_hat[v])\<close>.\<close>

fun tight_children ::
  "'f arith \<Rightarrow> (int \<rightharpoonup> 'f) \<Rightarrow> int set \<Rightarrow> int \<Rightarrow> (int \<times> 'f) list \<Rightarrow> int list \<Rightarrow> py_error + int list" where
  "tight_children ar d_hat W u [] cs = Inr cs"
| "tight_children ar d_hat W u ((v, w_uv) # es) cs =
     (if v \<in> W then
        (case d_hat u of
           None \<Rightarrow> Inl KeyError
         | Some du \<Rightarrow>
             (case d_hat v of
                None \<Rightarrow> Inl KeyError
              | Some dv \<Rightarrow>
                  tight_children ar d_hat W u es
                    (if f_lt ar (f_abs ar (f_sub ar (f_add ar du w_uv) dv)) (f_tol ar)
                     then cs @ [v] else cs)))
      else tight_children ar d_hat W u es cs)"

text \<open>The dictionaries built by lines 46-53, read with \<open>children.get(x, [])\<close> and
  \<open>indeg[v]\<close>: \<open>indeg[v]\<close> is incremented with every append of \<open>v\<close> to a list of children.\<close>

definition children_of :: "'f arith \<Rightarrow> 'f Graph \<Rightarrow> (int \<rightharpoonup> 'f) \<Rightarrow> int set \<Rightarrow> int \<Rightarrow> int list" where
  "children_of ar edges d_hat W u =
     (if u \<in> W then
        (case tight_children ar d_hat W u (edges_get edges u) [] of Inl e \<Rightarrow> [] | Inr cs \<Rightarrow> cs)
      else [])"

definition indeg_of :: "'f arith \<Rightarrow> 'f Graph \<Rightarrow> (int \<rightharpoonup> 'f) \<Rightarrow> int set \<Rightarrow> int \<Rightarrow> nat" where
  "indeg_of ar edges d_hat W v = (\<Sum>u\<in>W. count_list (children_of ar edges d_hat W u) v)"

text \<open>\<open>subtree_size\<close> (lines 59-71): \<open>stack.pop()\<close> takes the last element and
  \<open>stack.extend\<close> appends.\<close>

partial_function (option) subtree_loop ::
  "(int \<Rightarrow> int list) \<Rightarrow> int list \<Rightarrow> int set \<Rightarrow> int \<Rightarrow> int option" where
  "subtree_loop children stack visited count =
     (if stack = [] then Some count
      else (let x = last stack; stack' = butlast stack in
            if x \<in> visited then subtree_loop children stack' visited count
            else subtree_loop children (stack' @ children x) (insert x visited) (count + 1)))"

definition subtree_size :: "(int \<Rightarrow> int list) \<Rightarrow> int \<Rightarrow> int option" where
  "subtree_size children root_v = subtree_loop children [root_v] {} 0"

definition find_pivots ::
  "'f arith \<Rightarrow> 'f Graph \<Rightarrow> (int \<rightharpoonup> 'f) \<Rightarrow> int set \<Rightarrow> int \<Rightarrow> 'f
     \<Rightarrow> (py_error + int set \<times> int set) option" where
  "find_pivots ar edges d_hat S k B =
     (case relax_loop (nat k) ar edges d_hat B S S of
        Inl e \<Rightarrow> Some (Inl e)
      | Inr W \<Rightarrow>
          if int (card W) > k * max 1 (int (card S)) then Some (Inr (S, W))
          else if \<exists>u\<in>W. isl (tight_children ar d_hat W u (edges_get edges u) [])
          then Some (Inl KeyError)
          else
            (let children = children_of ar edges d_hat W;
                 roots = {u \<in> W. indeg_of ar edges d_hat W u = 0}
             in if \<exists>u\<in>S. u \<in> roots \<and> subtree_size children u = None then None
                else Some (Inr ({u \<in> S. u \<in> roots \<and>
                                  (case subtree_size children u of None \<Rightarrow> False | Some n \<Rightarrow> n \<ge> k)}, W))))"

section \<open>Notions used in the statements\<close>

text \<open>What the records \<open>ps\<close> contribute to the neighbour list of \<open>k\<close>, in the order of the
  records: for each record its edge when it starts at \<open>k\<close>, then, when mirroring is asked
  for, its reverse edge when it ends at \<open>k\<close>.\<close>

definition path_edges :: "bool \<Rightarrow> 'f Path list \<Rightarrow> string \<Rightarrow> (string \<times> 'f) list" where
  "path_edges undirected ps k =
     concat (map (\<lambda>p. (if start_id p = k then [(end_id p, path_length p)] else [])
                      @ (if undirected \<and> end_id p = k then [(start_id p, path_length p)] else [])) ps)"

text \<open>The lists of \<open>adj\<close>, each extended by \<open>f\<close> of its key.\<close>

definition extend_adj ::
  "(string, 'f) adjacency \<Rightarrow> (string \<Rightarrow> (string \<times> 'f) list) \<Rightarrow> (string, 'f) adjacency" where
  "extend_adj adj f = (\<lambda>k. map_option (\<lambda>es. es @ f k) (adj k))"

text \<open>The pairs the double loop visits: each element with every later one.\<close>

fun pairs_of :: "'a list \<Rightarrow> ('a \<times> 'a) list" where
  "pairs_of [] = []"
| "pairs_of (u # us) = map (Pair u) us @ pairs_of us"






text \<open>What the theorem on zero radii uses of the arithmetic: the distance computed for two
  different positions is not at most \<open>0.0\<close>. For the doubles, \<open>a - b\<close> is a zero only when
  \<open>a == b\<close>, and \<open>math.hypot\<close> is a zero only when both its arguments are.\<close>

definition apart_positive :: "'f::linorder arith \<Rightarrow> bool" where
  "apart_positive ar =
     (\<forall>x1 y1 x2 y2. f_hypot ar (f_sub ar x1 x2) (f_sub ar y1 y2) \<le> f_zero ar
                       \<longrightarrow> x1 = x2 \<and> y1 = y2)"

text \<open>The accumulated frontier \<open>W\<close> of lines 23-38. It is computed by the model of these
  lines, run on the estimates completed with \<open>0.0\<close> for the missing keys, so that it is
  defined for every input; whenever the relaxation phase itself completes, its \<open>W\<close> is this
  set (lemma \<open>relax_loop_frontier\<close>).\<close>

definition read0 :: "'f arith \<Rightarrow> (int \<rightharpoonup> 'f) \<Rightarrow> (int \<rightharpoonup> 'f)" where
  "read0 ar d_hat = (\<lambda>v. Some (case d_hat v of None \<Rightarrow> f_zero ar | Some x \<Rightarrow> x))"

definition frontier :: "'f arith \<Rightarrow> 'f Graph \<Rightarrow> (int \<rightharpoonup> 'f) \<Rightarrow> int set \<Rightarrow> int \<Rightarrow> 'f \<Rightarrow> int set" where
  "frontier ar edges d_hat S k B =
     (case relax_loop (nat k) ar edges (read0 ar d_hat) B S S of Inl e \<Rightarrow> {} | Inr W \<Rightarrow> W)"

text \<open>The vertices whose edges the relaxation phase iterates over: the layer \<open>Wi_1\<close> of
  each round that is run. Like the frontier, the layers are computed on the completed
  estimates; up to the first failing lookup they are the layers of the run itself.\<close>

fun relaxed ::
  "nat \<Rightarrow> 'f arith \<Rightarrow> 'f Graph \<Rightarrow> (int \<rightharpoonup> 'f) \<Rightarrow> 'f \<Rightarrow> int set \<Rightarrow> int set" where
  "relaxed 0 ar edges d_hat B Wi_1 = {}"
| "relaxed (Suc n) ar edges d_hat B Wi_1 =
     Wi_1 \<union> (case relax_layer ar edges (read0 ar d_hat) B Wi_1 of
               Inl e \<Rightarrow> {}
             | Inr Wi \<Rightarrow> if Wi = {} then {} else relaxed n ar edges d_hat B Wi)"

text \<open>A lookup made for the edges of \<open>u\<close> with a target in \<open>T\<close> fails: such an edge
  \<open>u \<rightarrow> v\<close> exists and \<open>u\<close> or \<open>v\<close> has no estimate.\<close>

definition lacks :: "'f Graph \<Rightarrow> (int \<rightharpoonup> 'f) \<Rightarrow> int set \<Rightarrow> int \<Rightarrow> bool" where
  "lacks edges d_hat T u =
     (\<exists>(v, w)\<in>set (edges_get edges u). v \<in> T \<and> (d_hat u = None \<or> d_hat v = None))"

text \<open>Some estimate that the call reads is missing: for an edge leaving a vertex of a
  relaxed layer or, when the fast path is not taken, for an edge between two vertices of
  the frontier.\<close>

definition read_missing ::
  "'f arith \<Rightarrow> 'f Graph \<Rightarrow> (int \<rightharpoonup> 'f) \<Rightarrow> int set \<Rightarrow> int \<Rightarrow> 'f \<Rightarrow> bool" where
  "read_missing ar edges d_hat S k B =
     ((\<exists>u\<in>relaxed (nat k) ar edges d_hat B S. lacks edges d_hat UNIV u)
      \<or> (\<not> int (card (frontier ar edges d_hat S k B)) > k * max 1 (int (card S))
         \<and> (\<exists>u\<in>frontier ar edges d_hat S k B.
               lacks edges d_hat (frontier ar edges d_hat S k B) u)))"

text \<open>The tight-edge forest restricted to \<open>W\<close>: an edge \<open>x \<rightarrow> u\<close> of weight \<open>w\<close> is tight when
  the float \<open>abs(d_hat[x] + w - d_hat[u])\<close> is below the float \<open>1e-12\<close>, as the source
  computes and compares them.\<close>

definition tight_edge :: "'f arith \<Rightarrow> (int \<rightharpoonup> 'f) \<Rightarrow> int \<Rightarrow> 'f \<Rightarrow> int \<Rightarrow> bool" where
  "tight_edge ar d_hat x w u =
     (case d_hat x of
        None \<Rightarrow> False
      | Some dx \<Rightarrow>
          (case d_hat u of
             None \<Rightarrow> False
           | Some du \<Rightarrow> f_lt ar (f_abs ar (f_sub ar (f_add ar dx w) du)) (f_tol ar)))"

definition forest :: "'f arith \<Rightarrow> 'f Graph \<Rightarrow> (int \<rightharpoonup> 'f) \<Rightarrow> int set \<Rightarrow> (int \<times> int) set" where
  "forest ar edges d_hat W =
     {(x, v). x \<in> W \<and> v \<in> W \<and> (\<exists>w. (v, w) \<in> set (edges_get edges x) \<and> tight_edge ar d_hat x w v)}"

text \<open>The edges of the dictionary \<open>children\<close>, as a relation.\<close>

definition succs :: "(int \<Rightarrow> int list) \<Rightarrow> (int \<times> int) set" where
  "succs children = {(x, y). y \<in> set (children x)}"

text \<open>Every edge weight of the graph is nonnegative: \<open>0.0 <= w\<close>.\<close>

definition nonneg_weights :: "'f::linorder arith \<Rightarrow> ('v, 'f) adjacency \<Rightarrow> bool" where
  "nonneg_weights ar adj = (\<forall>u es. adj u = Some es \<longrightarrow> (\<forall>(v, w)\<in>set es. f_zero ar \<le> w))"

text \<open>What the theorems on \<open>dijkstra\<close> use of the arithmetic: the float sum of two
  nonnegative floats is not below the first of them (the exact sum is not, and rounding
  is monotone; the float sum may well be equal to the first, or be \<open>math.inf\<close>);
  \<open>math.inf\<close> is the greatest float; and \<open>0.0 < math.inf\<close>.\<close>

definition float_laws :: "'f::linorder arith \<Rightarrow> bool" where
  "float_laws ar =
     ((\<forall>x w. f_zero ar \<le> x \<longrightarrow> f_zero ar \<le> w \<longrightarrow> x \<le> f_add ar x w)
      \<and> (\<forall>x. x \<le> f_inf ar)
      \<and> f_zero ar < f_inf ar)"



text \<open>The invariant of the main loop of \<open>dijkstra\<close>, for the last popped distance \<open>m\<close> and
  the set \<open>X\<close> of the vertices whose edges have been relaxed: no heap entry is below \<open>m\<close>,
  and all are finite; the distances of \<open>X\<close> are final and at most \<open>m\<close>; a predecessor is in
  \<open>X\<close>, has a finite distance and explains the distance of its successor by one float
  addition of an edge weight; finite distances are nonnegative, and only the start has a
  finite distance and no predecessor.\<close>

definition dj_inv ::
  "'f::linorder arith \<Rightarrow> ('v, 'f) adjacency \<Rightarrow> 'v \<Rightarrow> 'f \<Rightarrow> 'v set \<Rightarrow> ('v, 'f) dstate \<Rightarrow> bool" where
  "dj_inv ar adj start m X st =
     (case st of (dists, prevs, pq) \<Rightarrow>
        (\<forall>(k, v)\<in>set pq. m \<le> k \<and> k < f_inf ar) \<and> f_zero ar \<le> m \<and> m < f_inf ar
        \<and> (\<forall>v\<in>X. \<exists>dv. dists v = Some dv \<and> dv \<le> m)
        \<and> (\<forall>v p. prevs v = Some (Some p) \<longrightarrow>
              p \<in> X \<and> (\<exists>dp w. dists p = Some dp \<and> dp \<noteq> f_inf ar
                            \<and> (v, w) \<in> set (edges_get adj p)
                            \<and> dists v = Some (f_add ar dp w)))
        \<and> (\<forall>v dv. dists v = Some dv \<longrightarrow> dv \<noteq> f_inf ar \<longrightarrow>
              f_zero ar \<le> dv \<and> (prevs v = Some None \<longrightarrow> v = start \<and> dv = f_zero ar)))"


text \<open>Every neighbour named in the graph is itself a key of the graph.\<close>

definition closed_graph :: "('v, 'f) adjacency \<Rightarrow> bool" where
  "closed_graph adj = (\<forall>u es. adj u = Some es \<longrightarrow> (\<forall>(v, w)\<in>set es. adj v \<noteq> None))"

text \<open>In the list \<open>xs\<close>, \<open>p\<close> stands before an occurrence of \<open>v\<close>.\<close>

definition before :: "'v \<Rightarrow> 'v \<Rightarrow> 'v list \<Rightarrow> bool" where
  "before p v xs = (\<exists>as bs. xs = as @ v # bs \<and> p \<in> set as)"

text \<open>What the main loop of \<open>dijkstra\<close> keeps besides \<open>dj_inv\<close>, for the list \<open>xs\<close> of the
  vertices in the order in which their edges were relaxed: \<open>dist\<close> and \<open>prev\<close> have the keys
  of the graph; the heap entries are distinct, none is below the distance of its vertex,
  and those of a relaxed vertex are stale; a predecessor was relaxed before its successor.\<close>

definition dj_extra ::
  "('v, 'f::linorder) adjacency \<Rightarrow> 'v list \<Rightarrow> ('v, 'f) dstate \<Rightarrow> bool" where
  "dj_extra adj xs st =
     (case st of (dists, prevs, pq) \<Rightarrow>
        distinct xs \<and> set xs \<subseteq> dom adj \<and> dom dists = dom adj \<and> dom prevs = dom adj
        \<and> distinct pq
        \<and> (\<forall>(k, v)\<in>set pq. \<exists>dv. dists v = Some dv \<and> dv \<le> k \<and> (v \<in> set xs \<longrightarrow> dv < k))
        \<and> (\<forall>v p. prevs v = Some (Some p) \<longrightarrow> v \<in> set xs \<longrightarrow> before p v xs))"

text \<open>The work left to the main loop: one unit, and one per edge, for every vertex whose
  edges are not relaxed yet.\<close>

definition todo :: "('v, 'f) adjacency \<Rightarrow> 'v list \<Rightarrow> nat" where
  "todo adj xs = (\<Sum>v\<in>dom adj - set xs. Suc (length (edges_get adj v)))"

section \<open>Two arithmetics for the examples\<close>

text \<open>
  The examples are evaluated on the reals extended by an infinity, \<open>PosInf\<close>, above every
  real. In the arithmetic \<open>exact\<close> no operation rounds; an operation with an infinite
  argument gives \<open>PosInf\<close>. The arithmetic \<open>absorbing\<close> differs in its addition, which loses
  a small second summand next to a large first one, as the addition of doubles does:
  there \<open>10 + 1\<close> is \<open>10\<close>.
\<close>

datatype xfloat = Val real | PosInf

instantiation xfloat :: linorder
begin

fun less_eq_xfloat :: "xfloat \<Rightarrow> xfloat \<Rightarrow> bool" where
  "less_eq_xfloat (Val a) (Val b) = (a \<le> b)"
| "less_eq_xfloat (Val a) PosInf = True"
| "less_eq_xfloat PosInf (Val b) = False"
| "less_eq_xfloat PosInf PosInf = True"

definition less_xfloat :: "xfloat \<Rightarrow> xfloat \<Rightarrow> bool" where
  "less_xfloat x y = (x \<le> y \<and> \<not> y \<le> x)"

instance
proof
  fix x y z :: xfloat
  show "(x < y) = (x \<le> y \<and> \<not> y \<le> x)"
    by (rule less_xfloat_def)
  show "x \<le> x"
    by (cases x) simp_all
  show "x \<le> y \<Longrightarrow> y \<le> z \<Longrightarrow> x \<le> z"
    by (cases x; cases y; cases z) simp_all
  show "x \<le> y \<Longrightarrow> y \<le> x \<Longrightarrow> x = y"
    by (cases x; cases y) simp_all
  show "x \<le> y \<or> y \<le> x"
    by (cases x; cases y) auto
qed

end

fun xlift :: "(real \<Rightarrow> real \<Rightarrow> real) \<Rightarrow> xfloat \<Rightarrow> xfloat \<Rightarrow> xfloat" where
  "xlift f (Val a) (Val b) = Val (f a b)"
| "xlift f (Val a) PosInf = PosInf"
| "xlift f PosInf y = PosInf"

fun xabs :: "xfloat \<Rightarrow> xfloat" where
  "xabs (Val a) = Val \<bar>a\<bar>"
| "xabs PosInf = PosInf"

definition exact :: "xfloat arith" where
  "exact = \<lparr>f_zero = Val 0, f_inf = PosInf, f_half = Val (1 / 2), f_tol = Val (1 / 10 ^ 12),
            f_add = xlift (+), f_sub = xlift (-), f_mul = xlift (*), f_abs = xabs,
            f_hypot = xlift (\<lambda>a b. sqrt (a\<^sup>2 + b\<^sup>2)), f_le = (\<le>), f_lt = (<)\<rparr>"

definition absorbing :: "xfloat arith" where
  "absorbing = exact\<lparr>f_add := xlift (\<lambda>a b. if 10 \<le> a \<and> b \<le> 1 then a else a + b)\<rparr>"

section \<open>Inputs used by the examples\<close>

definition demo_adj :: "(string, xfloat) adjacency" where
  "demo_adj = [''A'' \<mapsto> [(''B'', Val 1), (''C'', Val 4)], ''B'' \<mapsto> [(''C'', Val 2)], ''C'' \<mapsto> []]"


definition demo_nodes2 :: "(string \<times> (xfloat, xfloat option) Node) list" where
  "demo_nodes2 = [(''A'', \<lparr>node_id = ''A'', node_x = Val 0, node_y = Val 0, node_r = None\<rparr>),
                  (''B'', \<lparr>node_id = ''B'', node_x = Val 3, node_y = Val 4, node_r = None\<rparr>)]"

definition path_ab :: "xfloat Path" where
  "path_ab = \<lparr>path_id = ''1'', start_id = ''A'', end_id = ''B'', path_length = Val 3\<rparr>"

definition path_az :: "xfloat Path" where
  "path_az = \<lparr>path_id = ''2'', start_id = ''A'', end_id = ''Z'', path_length = Val 1\<rparr>"



definition zero_nodes :: "(string \<times> (xfloat, xfloat) Node) list" where
  "zero_nodes = [(''X'', \<lparr>node_id = ''X'', node_x = Val 0, node_y = Val 0, node_r = Val 0\<rparr>),
                 (''Y'', \<lparr>node_id = ''Y'', node_x = Val 1, node_y = Val 1, node_r = Val 0\<rparr>),
                 (''Z'', \<lparr>node_id = ''Z'', node_x = Val 2, node_y = Val 2, node_r = Val 0\<rparr>)]"

definition stacked_nodes :: "(string \<times> (xfloat, xfloat) Node) list" where
  "stacked_nodes = [(''X'', \<lparr>node_id = ''X'', node_x = Val 1, node_y = Val 2, node_r = Val 0\<rparr>),
                    (''Y'', \<lparr>node_id = ''Y'', node_x = Val 1, node_y = Val 2, node_r = Val 0\<rparr>)]"

text \<open>The graph and the estimates of \<open>demo()\<close> in \<open>FindingPivots.py\<close>.\<close>

definition demo_edges :: "xfloat Graph" where
  "demo_edges = [0 \<mapsto> [(1, Val 1), (2, Val 2)], 1 \<mapsto> [(3, Val 1), (4, Val 3)],
                 2 \<mapsto> [(3, Val 1), (4, Val 2)], 3 \<mapsto> [(5, Val 1)], 4 \<mapsto> [(5, Val 1)], 5 \<mapsto> []]"

definition demo_d_hat :: "int \<rightharpoonup> xfloat" where
  "demo_d_hat = [0 \<mapsto> Val 0, 1 \<mapsto> Val 1, 2 \<mapsto> Val 2, 3 \<mapsto> Val 2, 4 \<mapsto> Val 4, 5 \<mapsto> Val 3]"

text \<open>One edge \<open>0 \<rightarrow> 1\<close>, and an estimate for the vertex 0 only.\<close>

definition one_edge :: "xfloat Graph" where
  "one_edge = [0 \<mapsto> [(1, Val 1)]]"

definition one_d_hat :: "int \<rightharpoonup> xfloat" where
  "one_d_hat = [0 \<mapsto> Val 0]"


section \<open>The two arithmetics\<close>

lemma xfloat_less_simps [simp]:
  "Val a < Val b \<longleftrightarrow> a < b"
  "Val a < PosInf"
  "\<not> PosInf < x"
  by (cases x; auto simp: less_xfloat_def)+

lemma xfloat_top [simp]: "x \<le> PosInf"
  by (cases x) simp_all

lemma exact_fields [simp]:
  "f_zero exact = Val 0" "f_inf exact = PosInf" "f_half exact = Val (1 / 2)"
  "f_tol exact = Val (1 / 10 ^ 12)" "f_add exact = xlift (+)" "f_sub exact = xlift (-)"
  "f_mul exact = xlift (*)" "f_abs exact = xabs"
  "f_hypot exact = xlift (\<lambda>a b. sqrt (a\<^sup>2 + b\<^sup>2))" "f_le exact = (\<le>)" "f_lt exact = (<)"
  by (simp_all add: exact_def)

lemma absorbing_fields [simp]:
  "f_zero absorbing = Val 0" "f_inf absorbing = PosInf"
  "f_add absorbing = xlift (\<lambda>a b. if 10 \<le> a \<and> b \<le> 1 then a else a + b)"
  by (simp_all add: absorbing_def)



lemma exact_apart_positive: "apart_positive exact"
  unfolding apart_positive_def
proof (intro allI impI)
  fix x1 y1 x2 y2 :: xfloat
  assume le: "f_hypot exact (f_sub exact x1 x2) (f_sub exact y1 y2) \<le> f_zero exact"
  show "x1 = x2 \<and> y1 = y2"
  proof (cases x1; cases x2; cases y1; cases y2)
    fix a b c d
    assume v: "x1 = Val a" "x2 = Val b" "y1 = Val c" "y2 = Val d"
    with le have "sqrt ((a - b)\<^sup>2 + (c - d)\<^sup>2) \<le> 0"
      by simp
    then have "(a - b)\<^sup>2 + (c - d)\<^sup>2 = 0"
      by (simp add: real_sqrt_le_0_iff sum_power2_le_zero_iff)
    then show ?thesis
      using v by (simp add: sum_power2_eq_zero_iff)
  qed (use le in simp_all)
qed

section \<open>\<open>dijkstra\<close>: the checks before the search\<close>

text \<open>
  Claim C5. If the start or the goal vertex is banned, or one of them is not a key of the
  graph, \<open>dijkstra\<close> returns infinity (\<open>math.inf\<close>) and the empty sequence: it returns (the
  result is \<open>Some\<close>) and it does not raise (the result is \<open>Inr\<close>). No float operation is
  involved.
\<close>

theorem dijkstra_banned_or_absent:
  assumes "start \<in> banned_set banned_arg \<or> goal \<in> banned_set banned_arg
             \<or> adj start = None \<or> adj goal = None"
  shows "dijkstra ar adj start goal banned_arg = Some (Inr (f_inf ar, []))"
  using assms by (auto simp: dijkstra_def Let_def)

theorem dijkstra_banned_or_absent_witness:
  "dijkstra exact demo_adj ''A'' ''C'' (Some {''C''}) = Some (Inr (PosInf, []))
   \<and> dijkstra exact demo_adj ''A'' ''D'' None = Some (Inr (PosInf, []))"
proof -
  have "''C'' \<in> banned_set (Some {''C''})"
    by (simp add: banned_set_def)
  moreover have "demo_adj ''D'' = None"
    by (simp add: demo_adj_def)
  ultimately show ?thesis
    using dijkstra_banned_or_absent [of "''A''" "Some {''C''}" "''C''" demo_adj exact]
      dijkstra_banned_or_absent [of "''A''" None "''D''" demo_adj exact]
    by simp
qed

section \<open>\<open>build_graph\<close>: an unrecognised mode\<close>

text \<open>In \<open>dijistra2.py\<close> the mode is tested before any loop: every other mode string
  raises \<open>ValueError\<close>.\<close>

lemma build_graph2_unknown_mode:
  assumes "mode \<noteq> ''paths''" and "mode \<noteq> ''range''"
  shows "build_graph2 ar nodes mode paths undirected weight_fn = Inl ValueError"
  using assms by (simp add: build_graph2_def)

text \<open>In \<open>iot_routing_dijkstra.py\<close> the test stands in the body of the loop over pairs, so
  it is reached only when there are two nodes.\<close>

lemma build_graph_unknown_mode_two_nodes:
  assumes "mode \<noteq> ''both''" and "mode \<noteq> ''either''"
  shows "build_graph ar (a # b # nodes) mode weight_fn = Inl ValueError"
  using assms by (simp add: build_graph_def pair_body_def)

text \<open>
  Claim C9. An unrecognised mode string raises an invalid-configuration error on every
  call. \<open>build_graph\<close> of \<open>iot_routing_dijkstra.py\<close> does not: with no node, or with one
  node, the loop body is never run and the call returns the adjacency with empty lists,
  whatever the arithmetic and the weight function.
\<close>

theorem build_graph_unknown_mode_returns:
  "build_graph ar [] ''mesh'' weight_fn = Inr (empty_adj [])
   \<and> build_graph ar [(''A'', node)] ''mesh'' weight_fn = Inr (empty_adj [''A''])"
  by (simp add: build_graph_def)

section \<open>\<open>build_graph\<close> of \<open>dijistra2.py\<close>: mode \<open>paths\<close>\<close>

lemma add_paths_bad:
  assumes "\<exists>p\<in>set ps. start_id p \<notin> set ids \<or> end_id p \<notin> set ids"
    and "\<forall>k\<in>set ids. adj k \<noteq> None"
  shows "add_paths ids undirected ps adj = Inl KeyError"
  using assms
proof (induction ps arbitrary: adj)
  case Nil
  then show ?case by simp
next
  case (Cons p ps)
  show ?case
  proof (cases "start_id p \<notin> set ids \<or> end_id p \<notin> set ids")
    case True
    then show ?thesis by simp
  next
    case False
    with Cons.prems have bad: "\<exists>p\<in>set ps. start_id p \<notin> set ids \<or> end_id p \<notin> set ids"
      by auto
    from False Cons.prems(2) obtain es where es: "adj (start_id p) = Some es"
      by auto
    let ?adj1 = "adj(start_id p \<mapsto> es @ [(end_id p, path_length p)])"
    have k1: "\<forall>k\<in>set ids. ?adj1 k \<noteq> None"
      using Cons.prems(2) by simp
    show ?thesis
    proof (cases undirected)
      case False
      then show ?thesis
        using \<open>\<not> (start_id p \<notin> set ids \<or> end_id p \<notin> set ids)\<close> es Cons.IH [OF bad k1]
        by (simp add: adj_append_def del: fun_upd_apply)
    next
      case True
      from \<open>\<not> (start_id p \<notin> set ids \<or> end_id p \<notin> set ids)\<close> k1
      obtain es1 where es1: "?adj1 (end_id p) = Some es1"
        by blast
      let ?adj2 = "?adj1(end_id p \<mapsto> es1 @ [(start_id p, path_length p)])"
      have k2: "\<forall>k\<in>set ids. ?adj2 k \<noteq> None"
        using k1 by simp
      show ?thesis
        using True \<open>\<not> (start_id p \<notin> set ids \<or> end_id p \<notin> set ids)\<close> es es1 Cons.IH [OF bad k2]
        by (simp add: adj_append_def del: fun_upd_apply)
    qed
  qed
qed

lemma add_paths_good:
  assumes "\<forall>p\<in>set ps. start_id p \<in> set ids \<and> end_id p \<in> set ids"
    and "\<forall>k\<in>set ids. adj k \<noteq> None"
  shows "add_paths ids undirected ps adj = Inr (extend_adj adj (path_edges undirected ps))"
  using assms
proof (induction ps arbitrary: adj)
  case Nil
  then show ?case by (simp add: extend_adj_def path_edges_def fun_eq_iff option.map_ident)
next
  case (Cons p ps)
  from Cons.prems have inb: "start_id p \<in> set ids" "end_id p \<in> set ids"
    and rest: "\<forall>p\<in>set ps. start_id p \<in> set ids \<and> end_id p \<in> set ids"
    by auto
  from inb Cons.prems(2) obtain es where es: "adj (start_id p) = Some es"
    by auto
  let ?adj1 = "adj(start_id p \<mapsto> es @ [(end_id p, path_length p)])"
  have k1: "\<forall>k\<in>set ids. ?adj1 k \<noteq> None"
    using Cons.prems(2) by simp
  show ?case
  proof (cases undirected)
    case False
    have "extend_adj ?adj1 (path_edges undirected ps) = extend_adj adj (path_edges undirected (p # ps))"
      using False es by (auto simp: extend_adj_def path_edges_def fun_eq_iff)
    then show ?thesis
      using False inb es Cons.IH [OF rest k1] by (simp add: adj_append_def del: fun_upd_apply)
  next
    case True
    from inb k1 obtain es1 where es1: "?adj1 (end_id p) = Some es1"
      by blast
    let ?adj2 = "?adj1(end_id p \<mapsto> es1 @ [(start_id p, path_length p)])"
    have k2: "\<forall>k\<in>set ids. ?adj2 k \<noteq> None"
      using k1 by simp
    have "extend_adj ?adj2 (path_edges undirected ps) = extend_adj adj (path_edges undirected (p # ps))"
      using True es es1 by (auto simp: extend_adj_def path_edges_def fun_eq_iff split: if_splits)
    then show ?thesis
      using True inb es es1 Cons.IH [OF rest k2] by (simp add: adj_append_def del: fun_upd_apply)
  qed
qed

lemma empty_adj_keys: "\<forall>k\<in>set ids. empty_adj ids k \<noteq> None"
  by (simp add: empty_adj_def)

lemma extend_empty_adj:
  "extend_adj (empty_adj ids) f = (\<lambda>k. if k \<in> set ids then Some (f k) else None)"
  by (simp add: extend_adj_def empty_adj_def fun_eq_iff)

text \<open>
  Claim C7. In mode \<open>paths\<close>, \<open>build_graph\<close> raises the data-integrity error (\<open>KeyError\<close>)
  if and only if some record names a start or end vertex that is not a key of \<open>nodes\<close>.
  When no record does, the result maps every key to the edges the records contribute to
  it (\<open>path_edges\<close>): \<open>p.start \<rightarrow> p.end\<close> with weight \<open>p.length\<close> and, when \<open>undirected\<close> is
  set, the reverse edge with the same weight. No float operation is involved.
\<close>

theorem build_graph2_paths:
  "(build_graph2 ar nodes ''paths'' (Some ps) undirected weight_fn = Inl KeyError
      \<longleftrightarrow> (\<exists>p\<in>set ps. start_id p \<notin> fst ` set nodes \<or> end_id p \<notin> fst ` set nodes))
   \<and> ((\<forall>p\<in>set ps. start_id p \<in> fst ` set nodes \<and> end_id p \<in> fst ` set nodes) \<longrightarrow>
        build_graph2 ar nodes ''paths'' (Some ps) undirected weight_fn =
          Inr (\<lambda>k. if k \<in> fst ` set nodes then Some (path_edges undirected ps k) else None))"
proof (cases "\<exists>p\<in>set ps. start_id p \<notin> fst ` set nodes \<or> end_id p \<notin> fst ` set nodes")
  case True
  then have "\<exists>p\<in>set ps. start_id p \<notin> set (map fst nodes) \<or> end_id p \<notin> set (map fst nodes)"
    by simp
  from add_paths_bad [OF this empty_adj_keys]
  have "build_graph2 ar nodes ''paths'' (Some ps) undirected weight_fn = Inl KeyError"
    by (simp add: build_graph2_def)
  with True show ?thesis by auto
next
  case False
  then have "\<forall>p\<in>set ps. start_id p \<in> set (map fst nodes) \<and> end_id p \<in> set (map fst nodes)"
    by simp
  from add_paths_good [OF this empty_adj_keys]
  have "build_graph2 ar nodes ''paths'' (Some ps) undirected weight_fn =
          Inr (\<lambda>k. if k \<in> fst ` set nodes then Some (path_edges undirected ps k) else None)"
    by (simp add: build_graph2_def extend_empty_adj)
  with False show ?thesis by auto
qed

theorem build_graph2_paths_witness:
  "build_graph2 exact demo_nodes2 ''paths'' (Some [path_ab]) True (euclid exact) =
     Inr (\<lambda>k. if k \<in> fst ` set demo_nodes2 then Some (path_edges True [path_ab] k) else None)
   \<and> path_edges True [path_ab] ''A'' = [(''B'', Val 3)]
   \<and> path_edges True [path_ab] ''B'' = [(''A'', Val 3)]
   \<and> build_graph2 exact demo_nodes2 ''paths'' (Some [path_ab, path_az]) True (euclid exact)
       = Inl KeyError"
proof -
  have good: "\<forall>p\<in>set [path_ab]. start_id p \<in> fst ` set demo_nodes2 \<and> end_id p \<in> fst ` set demo_nodes2"
    by (simp add: demo_nodes2_def path_ab_def)
  have bad: "\<exists>p\<in>set [path_ab, path_az].
               start_id p \<notin> fst ` set demo_nodes2 \<or> end_id p \<notin> fst ` set demo_nodes2"
    by (simp add: demo_nodes2_def path_az_def)
  note inst1 = build_graph2_paths [of exact demo_nodes2 "[path_ab]" True "euclid exact"]
  note inst2 = build_graph2_paths [of exact demo_nodes2 "[path_ab, path_az]" True "euclid exact"]
  from inst1 good
  have "build_graph2 exact demo_nodes2 ''paths'' (Some [path_ab]) True (euclid exact) =
     Inr (\<lambda>k. if k \<in> fst ` set demo_nodes2 then Some (path_edges True [path_ab] k) else None)"
    by blast
  moreover from inst2 bad
  have "build_graph2 exact demo_nodes2 ''paths'' (Some [path_ab, path_az]) True (euclid exact)
          = Inl KeyError"
    by blast
  moreover have "path_edges True [path_ab] ''A'' = [(''B'', Val 3)]"
    and "path_edges True [path_ab] ''B'' = [(''A'', Val 3)]"
    by (simp_all add: path_edges_def path_ab_def)
  ultimately show ?thesis by simp
qed

section \<open>\<open>build_graph\<close>: the coverage modes\<close>

lemma pairs_of_in_set: "(u, v) \<in> set (pairs_of ns) \<Longrightarrow> u \<in> set ns \<and> v \<in> set ns"
  by (induction ns) auto

lemma pairs_of_distinct:
  "distinct (map f ns) \<Longrightarrow> (u, v) \<in> set (pairs_of ns) \<Longrightarrow> f u \<noteq> f v"
  by (induction ns) (auto dest: pairs_of_in_set)








lemma for_later_unchanged:
  "(\<And>v. v \<in> set vs \<Longrightarrow> body u v adj = Inr adj) \<Longrightarrow> for_later body u vs adj = Inr adj"
  by (induction vs) auto

lemma for_pairs_unchanged:
  "(\<And>u v. (u, v) \<in> set (pairs_of ns) \<Longrightarrow> body u v adj = Inr adj) \<Longrightarrow> for_pairs body ns adj = Inr adj"
proof (induction ns)
  case Nil
  then show ?case by simp
next
  case (Cons u us)
  have "for_later body u us adj = Inr adj"
    by (rule for_later_unchanged) (simp add: Cons.prems)
  moreover have "for_pairs body us adj = Inr adj"
    by (rule Cons.IH) (simp add: Cons.prems)
  ultimately show ?case by simp
qed

lemma pair_body_zero_radius:
  assumes ap: "apart_positive ar"
    and "node_r u = f_zero ar" and "node_r v = f_zero ar"
    and "(node_x u, node_y u) \<noteq> (node_x v, node_y v)"
    and "mode = ''both'' \<or> mode = ''either''"
  shows "pair_body ar mode weight_fn u v adj = Inr adj"
proof -
  from ap assms(4) have "\<not> euclid ar u v \<le> f_zero ar" "\<not> euclid ar v u \<le> f_zero ar"
    unfolding apart_positive_def euclid_def by metis+
  with assms(2,3,5) show ?thesis
    by (auto simp: pair_body_def in_range_def Let_def)
qed

text \<open>
  Claim C8 (as amended). When every node has radius \<open>0.0\<close> and no two nodes share a
  position, \<open>build_graph\<close> of \<open>iot_routing_dijkstra.py\<close> in mode \<open>both\<close> or \<open>either\<close> returns
  the adjacency it started from: every key with an empty neighbour list. This holds in
  every arithmetic that gives two different positions a positive distance.
\<close>

theorem build_graph_zero_radius:
  assumes "apart_positive ar"
    and "\<forall>n\<in>set (map snd nodes). node_r n = f_zero ar"
    and "distinct (map (\<lambda>n. (node_x n, node_y n)) (map snd nodes))"
    and "mode = ''both'' \<or> mode = ''either''"
  shows "build_graph ar nodes mode weight_fn = Inr (empty_adj (map fst nodes))"
  unfolding build_graph_def
proof (rule for_pairs_unchanged)
  fix u v
  assume uv: "(u, v) \<in> set (pairs_of (map snd nodes))"
  then have "u \<in> set (map snd nodes)" "v \<in> set (map snd nodes)"
    by (auto dest: pairs_of_in_set)
  with assms(2) have "node_r u = f_zero ar" "node_r v = f_zero ar"
    by auto
  moreover from pairs_of_distinct [OF assms(3) uv]
  have "(node_x u, node_y u) \<noteq> (node_x v, node_y v)" .
  ultimately show "pair_body ar mode weight_fn u v (empty_adj (map fst nodes)) = Inr (empty_adj (map fst nodes))"
    using assms(1,4) by (intro pair_body_zero_radius)
qed

theorem build_graph_zero_radius_witness:
  "build_graph exact zero_nodes ''both'' (euclid exact) = Inr (empty_adj [''X'', ''Y'', ''Z''])
   \<and> build_graph exact zero_nodes ''either'' (euclid exact) = Inr (empty_adj [''X'', ''Y'', ''Z''])"
proof -
  have r: "\<forall>n\<in>set (map snd zero_nodes). node_r n = f_zero exact"
    by (simp add: zero_nodes_def)
  have d: "distinct (map (\<lambda>n. (node_x n, node_y n)) (map snd zero_nodes))"
    by (simp add: zero_nodes_def)
  have k: "map fst zero_nodes = [''X'', ''Y'', ''Z'']"
    by (simp add: zero_nodes_def)
  from build_graph_zero_radius [OF exact_apart_positive r d, of "''both''" "euclid exact"]
    build_graph_zero_radius [OF exact_apart_positive r d, of "''either''" "euclid exact"]
  show ?thesis by (simp add: k)
qed

text \<open>
  Claim C8 as stated ("regardless of where they are positioned") fails: the tests are
  \<open>d \<le> min(u.r, v.r)\<close> and \<open>euclid(src, dst) \<le> src.r\<close>, so two nodes of radius 0 at the
  same position are joined, with the weight 0 that \<open>euclid\<close> gives. (Here no operation
  rounds, in the doubles either: the differences are 0, and so are their \<open>hypot\<close>, the
  sum of the two weights and its half.)
\<close>

theorem build_graph_zero_radius_same_position:
  "build_graph exact stacked_nodes ''both'' (euclid exact)
     = Inr [''X'' \<mapsto> [(''Y'', Val 0)], ''Y'' \<mapsto> [(''X'', Val 0)]]
   \<and> build_graph exact stacked_nodes ''either'' (euclid exact)
     = Inr [''X'' \<mapsto> [(''Y'', Val 0)], ''Y'' \<mapsto> [(''X'', Val 0)]]
   \<and> node_r (snd (stacked_nodes ! 0)) = Val 0 \<and> node_r (snd (stacked_nodes ! 1)) = Val 0"
  by (auto simp add: stacked_nodes_def build_graph_def pair_body_def euclid_def in_range_def
        adj_append_def empty_adj_def fun_eq_iff Let_def)











section \<open>\<open>find_pivots\<close>: the relaxation phase\<close>

lemma relax_edges_bounds:
  "relax_edges ar d_hat B u es Wi = Inr Wi' \<Longrightarrow> Wi \<subseteq> Wi' \<and> Wi' \<subseteq> Wi \<union> fst ` set es"
proof (induction es arbitrary: Wi)
  case Nil
  then show ?case by simp
next
  case (Cons e es)
  obtain v w where e: "e = (v, w)" by (cases e)
  from Cons.prems obtain du dv where d: "d_hat u = Some du" "d_hat v = Some dv"
    by (auto simp: e split: option.splits)
  let ?Wi = "if f_le ar (f_add ar du w) dv \<and> f_lt ar (f_add ar du w) B then insert v Wi else Wi"
  from Cons.prems have "relax_edges ar d_hat B u es ?Wi = Inr Wi'"
    by (simp add: e d)
  from Cons.IH [OF this] show ?case
    by (auto simp: e split: if_splits)
qed

lemma relax_edges_read0:
  assumes "\<forall>(v, w)\<in>set es. d_hat u \<noteq> None \<and> d_hat v \<noteq> None"
  shows "relax_edges ar d_hat B u es Wi = relax_edges ar (read0 ar d_hat) B u es Wi"
  using assms
proof (induction es arbitrary: Wi)
  case Nil
  then show ?case by simp
next
  case (Cons e es)
  obtain v w where e: "e = (v, w)" by (cases e)
  from Cons.prems obtain du dv where d: "d_hat u = Some du" "d_hat v = Some dv"
    by (auto simp: e)
  then have r: "read0 ar d_hat u = Some du" "read0 ar d_hat v = Some dv"
    by (simp_all add: read0_def)
  from Cons.prems have "\<forall>(v, w)\<in>set es. d_hat u \<noteq> None \<and> d_hat v \<noteq> None"
    by simp
  from Cons.IH [OF this] show ?case
    by (simp add: e d r)
qed

lemma relax_edges_read0_total: "\<exists>Wi'. relax_edges ar (read0 ar d_hat) B u es Wi = Inr Wi'"
proof (induction es arbitrary: Wi)
  case Nil
  then show ?case by simp
next
  case (Cons e es)
  obtain v w where e: "e = (v, w)" by (cases e)
  have r: "read0 ar d_hat u = Some (case d_hat u of None \<Rightarrow> f_zero ar | Some x \<Rightarrow> x)"
      "read0 ar d_hat v = Some (case d_hat v of None \<Rightarrow> f_zero ar | Some x \<Rightarrow> x)"
    by (simp_all add: read0_def)
  show ?case
    unfolding e relax_edges.simps r option.case by (rule Cons.IH)
qed

lemma relax_layer_read0:
  assumes "\<forall>u\<in>Wi_1. \<forall>(v, w)\<in>set (edges_get edges u). d_hat u \<noteq> None \<and> d_hat v \<noteq> None"
  shows "relax_layer ar edges d_hat B Wi_1 = relax_layer ar edges (read0 ar d_hat) B Wi_1"
proof -
  have "relax_edges ar d_hat B u (edges_get edges u) {} = relax_edges ar (read0 ar d_hat) B u (edges_get edges u) {}"
    if "u \<in> Wi_1" for u
    using assms that by (intro relax_edges_read0) blast
  then show ?thesis
    by (simp add: relax_layer_def)
qed

lemma relax_layer_read0_total: "\<exists>Wi. relax_layer ar edges (read0 ar d_hat) B Wi_1 = Inr Wi"
proof -
  have "\<not> isl (relax_edges ar (read0 ar d_hat) B u (edges_get edges u) {})" for u
    using relax_edges_read0_total [of ar d_hat B u "edges_get edges u" "{}"] by auto
  then show ?thesis
    by (simp add: relax_layer_def)
qed

lemma relax_layer_finite:
  assumes "relax_layer ar edges d_hat B Wi_1 = Inr Wi" and "finite Wi_1"
  shows "finite Wi"
proof -
  from assms(1) have ok: "\<forall>u\<in>Wi_1. \<not> isl (relax_edges ar d_hat B u (edges_get edges u) {})"
    and Wi: "Wi = (\<Union>u\<in>Wi_1. projr (relax_edges ar d_hat B u (edges_get edges u) {}))"
    by (auto simp: relax_layer_def split: if_splits)
  have "finite (projr (relax_edges ar d_hat B u (edges_get edges u) {}))" if "u \<in> Wi_1" for u
  proof -
    from ok that obtain X where X: "relax_edges ar d_hat B u (edges_get edges u) {} = Inr X"
      by (cases "relax_edges ar d_hat B u (edges_get edges u) {}") auto
    from relax_edges_bounds [OF this] have "X \<subseteq> fst ` set (edges_get edges u)"
      by simp
    then have "finite X"
      by (rule finite_subset) simp
    with X show ?thesis by simp
  qed
  with assms(2) show ?thesis
    unfolding Wi by blast
qed

lemma relax_loop_grows:
  "relax_loop n ar edges d_hat B W Wi_1 = Inr W' \<Longrightarrow> W \<subseteq> W'"
proof (induction n arbitrary: W Wi_1)
  case 0
  then show ?case by simp
next
  case (Suc n)
  from Suc.prems obtain Wi where Wi: "relax_layer ar edges d_hat B Wi_1 = Inr Wi"
    by (auto split: sum.splits)
  show ?case
  proof (cases "Wi = {}")
    case True
    with Suc.prems Wi show ?thesis by simp
  next
    case False
    with Suc.prems Wi have "relax_loop n ar edges d_hat B (W \<union> Wi) Wi = Inr W'" by simp
    from Suc.IH [OF this] show ?thesis by simp
  qed
qed

lemma relax_loop_finite:
  "relax_loop n ar edges d_hat B W Wi_1 = Inr W' \<Longrightarrow> finite W \<Longrightarrow> finite Wi_1 \<Longrightarrow> finite W'"
proof (induction n arbitrary: W Wi_1)
  case 0
  then show ?case by simp
next
  case (Suc n)
  from Suc.prems(1) obtain Wi where Wi: "relax_layer ar edges d_hat B Wi_1 = Inr Wi"
    by (auto split: sum.splits)
  from relax_layer_finite [OF Wi Suc.prems(3)] have fin: "finite Wi" .
  show ?case
  proof (cases "Wi = {}")
    case True
    with Suc.prems Wi show ?thesis by simp
  next
    case False
    with Suc.prems Wi have "relax_loop n ar edges d_hat B (W \<union> Wi) Wi = Inr W'" by simp
    from Suc.IH [OF this] fin Suc.prems(2) show ?thesis by simp
  qed
qed

lemma relax_loop_read0_total: "\<exists>W'. relax_loop n ar edges (read0 ar d_hat) B W Wi_1 = Inr W'"
proof (induction n arbitrary: W Wi_1)
  case 0
  then show ?case by simp
next
  case (Suc n)
  from relax_layer_read0_total [of ar edges d_hat B Wi_1] obtain Wi where Wi: "relax_layer ar edges (read0 ar d_hat) B Wi_1 = Inr Wi"
    by blast
  with Suc.IH [of "W \<union> Wi" Wi] show ?case by simp
qed

lemma relax_loop_read0:
  assumes "relax_loop n ar edges (read0 ar d_hat) B W Wi_1 = Inr W'"
    and "Wi_1 \<subseteq> W"
    and "\<forall>u\<in>W'. \<forall>(v, w)\<in>set (edges_get edges u). d_hat u \<noteq> None \<and> d_hat v \<noteq> None"
  shows "relax_loop n ar edges d_hat B W Wi_1 = Inr W'"
  using assms
proof (induction n arbitrary: W Wi_1)
  case 0
  then show ?case by simp
next
  case (Suc n)
  from relax_loop_grows [OF Suc.prems(1)] Suc.prems(2) have sub: "Wi_1 \<subseteq> W'" by blast
  from relax_layer_read0_total [of ar edges d_hat B Wi_1] obtain Wi where Wi: "relax_layer ar edges (read0 ar d_hat) B Wi_1 = Inr Wi"
    by blast
  have "relax_layer ar edges d_hat B Wi_1 = relax_layer ar edges (read0 ar d_hat) B Wi_1"
    by (rule relax_layer_read0) (use sub Suc.prems(3) in blast)
  with Wi have Wi': "relax_layer ar edges d_hat B Wi_1 = Inr Wi" by simp
  show ?case
  proof (cases "Wi = {}")
    case True
    with Suc.prems(1) Wi Wi' show ?thesis by simp
  next
    case False
    with Suc.prems(1) Wi have "relax_loop n ar edges (read0 ar d_hat) B (W \<union> Wi) Wi = Inr W'" by simp
    from Suc.IH [OF this _ Suc.prems(3)] have "relax_loop n ar edges d_hat B (W \<union> Wi) Wi = Inr W'"
      by simp
    with False Wi' show ?thesis by simp
  qed
qed


lemma relax_edges_success_read0:
  "relax_edges ar d_hat B u es Wi = Inr Wi' \<Longrightarrow> relax_edges ar (read0 ar d_hat) B u es Wi = Inr Wi'"
proof (induction es arbitrary: Wi)
  case Nil
  then show ?case by simp
next
  case (Cons e es)
  obtain v w where e: "e = (v, w)" by (cases e)
  from Cons.prems obtain du dv where d: "d_hat u = Some du" "d_hat v = Some dv"
    by (auto simp: e split: option.splits)
  then have r: "read0 ar d_hat u = Some du" "read0 ar d_hat v = Some dv"
    by (simp_all add: read0_def)
  from Cons.prems Cons.IH show ?case
    by (simp add: e d r)
qed

lemma relax_layer_success_read0:
  assumes "relax_layer ar edges d_hat B Wi_1 = Inr Wi"
  shows "relax_layer ar edges (read0 ar d_hat) B Wi_1 = Inr Wi"
proof -
  have eq: "relax_edges ar (read0 ar d_hat) B u (edges_get edges u) {} =
            relax_edges ar d_hat B u (edges_get edges u) {}" if "u \<in> Wi_1" for u
  proof -
    from assms that obtain X where "relax_edges ar d_hat B u (edges_get edges u) {} = Inr X"
      by (cases "relax_edges ar d_hat B u (edges_get edges u) {}")
        (auto simp: relax_layer_def split: if_splits)
    with relax_edges_success_read0 [OF this] show ?thesis by simp
  qed
  then have "relax_layer ar edges (read0 ar d_hat) B Wi_1 = relax_layer ar edges d_hat B Wi_1"
    by (simp add: relax_layer_def)
  with assms show ?thesis by simp
qed

lemma relax_loop_success_read0:
  "relax_loop n ar edges d_hat B W Wi_1 = Inr W' \<Longrightarrow> relax_loop n ar edges (read0 ar d_hat) B W Wi_1 = Inr W'"
proof (induction n arbitrary: W Wi_1)
  case 0
  then show ?case by simp
next
  case (Suc n)
  from Suc.prems obtain Wi where Wi: "relax_layer ar edges d_hat B Wi_1 = Inr Wi"
    by (auto split: sum.splits)
  from Suc.prems Suc.IH [of "W \<union> Wi" Wi] Wi relax_layer_success_read0 [OF Wi] show ?case
    by (simp split: if_splits)
qed

lemma relax_loop_frontier:
  "relax_loop (nat k) ar edges d_hat B S S = Inr W \<Longrightarrow> frontier ar edges d_hat S k B = W"
  by (simp add: frontier_def relax_loop_success_read0)

section \<open>\<open>find_pivots\<close>: the traversal \<open>subtree_size\<close>\<close>

text \<open>The loop counts the vertices that can be reached from the stack and are not yet
  visited, provided every child of a visited vertex is visited or on the stack. It ends
  because each round either visits a new vertex or shortens the stack.\<close>

lemma closed_reach:
  assumes inv: "E `` visited \<subseteq> visited \<union> A"
  shows "E\<^sup>* `` visited \<subseteq> visited \<union> E\<^sup>* `` A"
proof
  fix y assume "y \<in> E\<^sup>* `` visited"
  then obtain x where "x \<in> visited" "(x, y) \<in> E\<^sup>*" by auto
  from this(2) this(1) show "y \<in> visited \<union> E\<^sup>* `` A"
  proof (induction rule: rtrancl_induct)
    case base
    then show ?case by simp
  next
    case (step y z)
    from step.IH [OF step.prems] show ?case
    proof
      assume "y \<in> visited"
      with step.hyps(2) inv have "z \<in> visited \<union> A" by auto
      then show ?thesis by auto
    next
      assume "y \<in> E\<^sup>* `` A"
      with step.hyps(2) show ?thesis by (auto intro: rtrancl_into_rtrancl)
    qed
  qed
qed

lemma reach_insert: "E\<^sup>* `` insert x A = insert x (E\<^sup>* `` (E `` {x})) \<union> E\<^sup>* `` A"
proof -
  have "E\<^sup>* `` {x} = insert x (E\<^sup>* `` (E `` {x}))"
    by (auto elim: converse_rtranclE intro: converse_rtrancl_into_rtrancl)
  moreover have "E\<^sup>* `` insert x A = E\<^sup>* `` {x} \<union> E\<^sup>* `` A"
    by auto
  ultimately show ?thesis by simp
qed

lemma subtree_loop_correct:
  assumes "finite ((succs children)\<^sup>* `` set stack)"
    and "succs children `` visited \<subseteq> visited \<union> set stack"
  shows "subtree_loop children stack visited count =
           Some (count + int (card ((succs children)\<^sup>* `` set stack - visited)))"
proof -
  have "wf (less_than <*lex*> less_than)"
    by (intro wf_lex_prod wf_less_than)
  from this assms show ?thesis
proof (induction "(card ((succs children)\<^sup>* `` set stack - visited), length stack)"
    arbitrary: stack visited count rule: wf_induct_rule)
  case less
  let ?E = "succs children"
  show ?case
  proof (cases "stack = []")
    case True
    then show ?thesis by (subst subtree_loop.simps) simp
  next
    case False
    define x where "x = last stack"
    define stack' where "stack' = butlast stack"
    have st: "stack = stack' @ [x]"
      using False by (simp add: x_def stack'_def)
    have sets: "set stack = insert x (set stack')"
      by (simp add: st)
    show ?thesis
    proof (cases "x \<in> visited")
      case True
      have inv': "?E `` visited \<subseteq> visited \<union> set stack'"
        using less.prems(2) True by (auto simp: sets)
      have fin': "finite (?E\<^sup>* `` set stack')"
        by (rule finite_subset [OF _ less.prems(1)]) (auto simp: sets)
      have "?E\<^sup>* `` {x} \<subseteq> ?E\<^sup>* `` visited"
        using True by auto
      with closed_reach [OF inv'] have "?E\<^sup>* `` {x} \<subseteq> visited \<union> ?E\<^sup>* `` set stack'"
        by blast
      moreover have "?E\<^sup>* `` set stack = ?E\<^sup>* `` {x} \<union> ?E\<^sup>* `` set stack'"
        by (auto simp: sets)
      ultimately have same: "?E\<^sup>* `` set stack - visited = ?E\<^sup>* `` set stack' - visited"
        by blast
      have "subtree_loop children stack' visited count =
              Some (count + int (card (?E\<^sup>* `` set stack' - visited)))"
        by (rule less.hyps [OF _ fin' inv']) (simp add: same [symmetric] st)
      then show ?thesis
        using False True same by (subst subtree_loop.simps) (simp add: x_def stack'_def Let_def)
    next
      case False
      let ?stack2 = "stack' @ children x"
      let ?visited2 = "insert x visited"
      have img: "?E `` {x} = set (children x)"
        by (auto simp: succs_def)
      have reach: "?E\<^sup>* `` set stack = insert x (?E\<^sup>* `` set ?stack2)"
        using reach_insert [of ?E x "set stack'"] by (auto simp: sets img)
      have inv': "?E `` ?visited2 \<subseteq> ?visited2 \<union> set ?stack2"
        using less.prems(2) img by (auto simp: sets)
      have fin': "finite (?E\<^sup>* `` set ?stack2)"
        by (rule finite_subset [OF _ less.prems(1)]) (auto simp: reach)
      have split: "?E\<^sup>* `` set stack - visited = insert x (?E\<^sup>* `` set ?stack2 - ?visited2)"
        using False by (auto simp: reach)
      have finU: "finite (?E\<^sup>* `` set ?stack2 - ?visited2)"
        using fin' by simp
      have card: "card (?E\<^sup>* `` set stack - visited) = Suc (card (?E\<^sup>* `` set ?stack2 - ?visited2))"
        unfolding split using finU by simp
      have "subtree_loop children ?stack2 ?visited2 (count + 1) =
              Some (count + 1 + int (card (?E\<^sup>* `` set ?stack2 - ?visited2)))"
        by (rule less.hyps [OF _ fin' inv']) (simp add: card)
      then show ?thesis
        using \<open>stack \<noteq> []\<close> False card
        by (subst subtree_loop.simps) (simp add: x_def stack'_def Let_def)
    qed
  qed
qed
qed


section \<open>\<open>find_pivots\<close>: the forest of tight edges\<close>

lemma tight_children_set:
  "tight_children ar d_hat W u es cs = Inr cs' \<Longrightarrow>
     set cs' = set cs \<union> {v \<in> W. \<exists>w. (v, w) \<in> set es \<and> tight_edge ar d_hat u w v}"
proof (induction es arbitrary: cs)
  case Nil
  then show ?case by simp
next
  case (Cons e es)
  obtain v w where e: "e = (v, w)" by (cases e)
  show ?case
  proof (cases "v \<in> W")
    case False
    with Cons.prems have "tight_children ar d_hat W u es cs = Inr cs'"
      by (simp add: e)
    from Cons.IH [OF this] False show ?thesis
      by (auto simp: e)
  next
    case True
    with Cons.prems obtain du dv where d: "d_hat u = Some du" "d_hat v = Some dv"
      by (auto simp: e split: option.splits)
    let ?cs = "if f_lt ar (f_abs ar (f_sub ar (f_add ar du w) dv)) (f_tol ar) then cs @ [v] else cs"
    from Cons.prems True have "tight_children ar d_hat W u es ?cs = Inr cs'"
      by (simp add: e d)
    from Cons.IH [OF this] True show ?thesis
      by (auto simp: e d tight_edge_def split: if_splits)
  qed
qed

lemma tight_children_succeeds:
  assumes "\<forall>(v, w)\<in>set es. v \<in> W \<longrightarrow> d_hat u \<noteq> None \<and> d_hat v \<noteq> None"
  shows "\<not> isl (tight_children ar d_hat W u es cs)"
  using assms
proof (induction es arbitrary: cs)
  case Nil
  then show ?case by simp
next
  case (Cons e es)
  obtain v w where e: "e = (v, w)" by (cases e)
  from Cons.prems have rest: "\<forall>(v, w)\<in>set es. v \<in> W \<longrightarrow> d_hat u \<noteq> None \<and> d_hat v \<noteq> None"
    by simp
  show ?case
  proof (cases "v \<in> W")
    case False
    with Cons.IH [OF rest] show ?thesis by (simp add: e)
  next
    case True
    with Cons.prems obtain du dv where d: "d_hat u = Some du" "d_hat v = Some dv"
      by (auto simp: e)
    with True Cons.IH [OF rest] show ?thesis by (simp add: e)
  qed
qed

lemma succs_children_of:
  assumes "\<forall>u\<in>W. \<not> isl (tight_children ar d_hat W u (edges_get edges u) [])"
  shows "succs (children_of ar edges d_hat W) = forest ar edges d_hat W"
proof -
  have "set (children_of ar edges d_hat W x) = {v. (x, v) \<in> forest ar edges d_hat W}" for x
  proof (cases "x \<in> W")
    case False
    then show ?thesis by (simp add: children_of_def forest_def)
  next
    case True
    with assms obtain cs where cs: "tight_children ar d_hat W x (edges_get edges x) [] = Inr cs"
      by (cases "tight_children ar d_hat W x (edges_get edges x) []") auto
    from tight_children_set [OF cs] True cs show ?thesis
      by (auto simp: children_of_def forest_def)
  qed
  then show ?thesis
    by (auto simp: succs_def)
qed

lemma forest_reach_subset: "(forest ar edges d_hat W)\<^sup>* `` {u} \<subseteq> insert u W"
proof
  fix v assume "v \<in> (forest ar edges d_hat W)\<^sup>* `` {u}"
  then have "(u, v) \<in> (forest ar edges d_hat W)\<^sup>*" by simp
  then show "v \<in> insert u W"
    by (induction rule: rtrancl_induct) (auto simp: forest_def)
qed

lemma subtree_size_forest:
  assumes "\<forall>u\<in>W. \<not> isl (tight_children ar d_hat W u (edges_get edges u) [])" and "finite W"
  shows "subtree_size (children_of ar edges d_hat W) u =
           Some (int (card ((forest ar edges d_hat W)\<^sup>* `` {u})))"
proof -
  have "finite ((forest ar edges d_hat W)\<^sup>* `` {u})"
    by (rule finite_subset [OF forest_reach_subset]) (simp add: assms(2))
  then have "finite ((succs (children_of ar edges d_hat W))\<^sup>* `` set [u])"
    by (simp add: succs_children_of [OF assms(1)])
  from subtree_loop_correct [OF this, of "{}" 0] show ?thesis
    by (simp add: subtree_size_def succs_children_of [OF assms(1)])
qed

lemma indeg_of_zero:
  assumes "\<forall>u\<in>W. \<not> isl (tight_children ar d_hat W u (edges_get edges u) [])" and "finite W"
  shows "indeg_of ar edges d_hat W v = 0 \<longleftrightarrow> (\<forall>x. (x, v) \<notin> forest ar edges d_hat W)"
proof -
  have "indeg_of ar edges d_hat W v = 0 \<longleftrightarrow> (\<forall>x\<in>W. v \<notin> set (children_of ar edges d_hat W x))"
    using assms(2) by (simp add: indeg_of_def count_list_0_iff)
  also have "\<dots> \<longleftrightarrow> (\<forall>x\<in>W. (x, v) \<notin> succs (children_of ar edges d_hat W))"
    by (simp add: succs_def)
  also have "\<dots> \<longleftrightarrow> (\<forall>x. (x, v) \<notin> forest ar edges d_hat W)"
    unfolding succs_children_of [OF assms(1)] by (auto simp: forest_def)
  finally show ?thesis .
qed


lemma find_pivots_slow_path:
  assumes W: "relax_loop (nat k) ar edges d_hat B S S = Inr W"
    and slow: "\<not> int (card W) > k * max 1 (int (card S))"
    and ok: "\<forall>u\<in>W. \<not> isl (tight_children ar d_hat W u (edges_get edges u) [])"
    and fin: "finite S"
  shows "find_pivots ar edges d_hat S k B =
           Some (Inr ({u \<in> S. (\<forall>x\<in>W. \<forall>w. (u, w) \<in> set (edges_get edges x) \<longrightarrow> \<not> tight_edge ar d_hat x w u)
                            \<and> k \<le> int (card ((forest ar edges d_hat W)\<^sup>* `` {u}))}, W))"
proof -
  from relax_loop_finite [OF W fin fin] have finW: "finite W" .
  from relax_loop_grows [OF W] have SW: "S \<subseteq> W" .
  note size = subtree_size_forest [OF ok finW]
  note deg = indeg_of_zero [OF ok finW]
  have roots: "(u \<in> W \<and> indeg_of ar edges d_hat W u = 0) \<longleftrightarrow>
      (\<forall>x\<in>W. \<forall>w. (u, w) \<in> set (edges_get edges x) \<longrightarrow> \<not> tight_edge ar d_hat x w u)"
    if "u \<in> S" for u
    using that SW by (auto simp: deg forest_def)
  have "{u \<in> S. u \<in> {u \<in> W. indeg_of ar edges d_hat W u = 0} \<and>
           (case subtree_size (children_of ar edges d_hat W) u of None \<Rightarrow> False | Some n \<Rightarrow> k \<le> n)}
        = {u \<in> S. (\<forall>x\<in>W. \<forall>w. (u, w) \<in> set (edges_get edges x) \<longrightarrow> \<not> tight_edge ar d_hat x w u)
                   \<and> k \<le> int (card ((forest ar edges d_hat W)\<^sup>* `` {u}))}"
    using roots by (auto simp: size)
  then show ?thesis
    using W slow ok by (simp add: find_pivots_def Let_def size)
qed

section \<open>\<open>find_pivots\<close>: the lookups that fail\<close>

text \<open>The relaxation of the edges of \<open>u\<close> fails exactly when \<open>u\<close> has an edge and \<open>u\<close> or
  the target of one of its edges has no estimate; the relaxation phase fails exactly when
  this happens for a vertex of a relaxed layer; and the construction of the forest fails
  exactly when it happens for an edge between two vertices of \<open>W\<close>. The only error is
  \<open>KeyError\<close>.\<close>

lemma relax_edges_fails_iff:
  "isl (relax_edges ar d_hat B u es Wi) \<longleftrightarrow> (\<exists>(v, w)\<in>set es. d_hat u = None \<or> d_hat v = None)"
proof (induction es arbitrary: Wi)
  case Nil
  then show ?case by simp
next
  case (Cons e es)
  obtain v w where e: "e = (v, w)" by (cases e)
  show ?case
    by (cases "d_hat u"; cases "d_hat v") (auto simp: e Cons.IH)
qed

lemma relax_layer_fails_iff:
  "relax_layer ar edges d_hat B Wi_1 = Inl e \<longleftrightarrow> e = KeyError \<and> (\<exists>u\<in>Wi_1. lacks edges d_hat UNIV u)"
  by (auto simp: relax_layer_def lacks_def relax_edges_fails_iff)

lemma relax_loop_fails_iff:
  "relax_loop n ar edges d_hat B W Wi_1 = Inl e \<longleftrightarrow>
     e = KeyError \<and> (\<exists>u\<in>relaxed n ar edges d_hat B Wi_1. lacks edges d_hat UNIV u)"
proof (induction n arbitrary: W Wi_1)
  case 0
  then show ?case by simp
next
  case (Suc n)
  show ?case
  proof (cases "\<exists>u\<in>Wi_1. lacks edges d_hat UNIV u")
    case True
    then have "relax_layer ar edges d_hat B Wi_1 = Inl KeyError"
      by (simp add: relax_layer_fails_iff)
    with True show ?thesis by auto
  next
    case False
    then have all: "\<forall>u\<in>Wi_1. \<forall>(v, w)\<in>set (edges_get edges u). d_hat u \<noteq> None \<and> d_hat v \<noteq> None"
      unfolding lacks_def by fastforce
    from relax_layer_read0_total [of ar edges d_hat B Wi_1]
    obtain Wi where Wi: "relax_layer ar edges (read0 ar d_hat) B Wi_1 = Inr Wi"
      by blast
    with relax_layer_read0 [OF all, of ar B] have Wi': "relax_layer ar edges d_hat B Wi_1 = Inr Wi"
      by simp
    show ?thesis
    proof (cases "Wi = {}")
      case True
      with False Wi Wi' show ?thesis by simp
    next
      case nonempty: False
      with False Wi Wi' Suc.IH [of "W \<union> Wi" Wi] show ?thesis by auto
    qed
  qed
qed

lemma tight_children_fails_iff:
  "isl (tight_children ar d_hat W u es cs) \<longleftrightarrow>
     (\<exists>(v, w)\<in>set es. v \<in> W \<and> (d_hat u = None \<or> d_hat v = None))"
proof (induction es arbitrary: cs)
  case Nil
  then show ?case by simp
next
  case (Cons e es)
  obtain v w where e: "e = (v, w)" by (cases e)
  show ?case
    by (cases "v \<in> W"; cases "d_hat u"; cases "d_hat v") (auto simp: e Cons.IH)
qed

lemma forest_fails_iff:
  "(\<exists>u\<in>W. isl (tight_children ar d_hat W u (edges_get edges u) [])) \<longleftrightarrow> (\<exists>u\<in>W. lacks edges d_hat W u)"
  by (simp add: tight_children_fails_iff lacks_def)

text \<open>In the first round the relaxed layer is \<open>S\<close>.\<close>

lemma relaxed_first_layer: "1 \<le> k \<Longrightarrow> S \<subseteq> relaxed (nat k) ar edges d_hat B S"
  by (cases "nat k") auto

section \<open>\<open>find_pivots\<close>: evaluation on the demo input\<close>

lemma demo_layer1: "relax_layer exact demo_edges demo_d_hat (Val 10) {0, 1, 2} = Inr {1, 2, 3, 4}"
  by (auto simp: relax_layer_def demo_edges_def demo_d_hat_def edges_get_def)

lemma demo_layer2: "relax_layer exact demo_edges demo_d_hat (Val 10) {1, 2, 3, 4} = Inr {3, 4, 5}"
  by (auto simp: relax_layer_def demo_edges_def demo_d_hat_def edges_get_def)

lemma demo_relax_loop:
  "relax_loop 2 exact demo_edges demo_d_hat (Val 10) {0, 1, 2} {0, 1, 2} = Inr {0, 1, 2, 3, 4, 5}"
  by (auto simp: eval_nat_numeral demo_layer1 demo_layer2)

lemma demo_children:
  "children_of exact demo_edges demo_d_hat {0, 1, 2, 3, 4, 5} 0 = [1, 2]"
  "children_of exact demo_edges demo_d_hat {0, 1, 2, 3, 4, 5} 1 = [3, 4]"
  "children_of exact demo_edges demo_d_hat {0, 1, 2, 3, 4, 5} 2 = [4]"
  "children_of exact demo_edges demo_d_hat {0, 1, 2, 3, 4, 5} 3 = [5]"
  "children_of exact demo_edges demo_d_hat {0, 1, 2, 3, 4, 5} 4 = []"
  "children_of exact demo_edges demo_d_hat {0, 1, 2, 3, 4, 5} 5 = []"
  by (simp_all add: children_of_def demo_edges_def demo_d_hat_def edges_get_def)

lemma demo_no_key_error:
  "\<not> (\<exists>u\<in>{0, 1, 2, 3, 4, 5}.
        isl (tight_children exact demo_d_hat {0, 1, 2, 3, 4, 5} u (edges_get demo_edges u) []))"
  by (simp add: demo_edges_def demo_d_hat_def edges_get_def)

lemma demo_indeg:
  "indeg_of exact demo_edges demo_d_hat {0, 1, 2, 3, 4, 5} 0 = 0"
  "indeg_of exact demo_edges demo_d_hat {0, 1, 2, 3, 4, 5} 1 \<noteq> 0"
  "indeg_of exact demo_edges demo_d_hat {0, 1, 2, 3, 4, 5} 2 \<noteq> 0"
  by (simp_all add: indeg_of_def demo_children)

lemma demo_subtree_size:
  "subtree_size (children_of exact demo_edges demo_d_hat {0, 1, 2, 3, 4, 5}) 0 = Some 6"
  unfolding subtree_size_def
  apply (subst subtree_loop.simps, simp add: demo_children Let_def)
  apply (subst subtree_loop.simps, simp add: demo_children Let_def)
  apply (subst subtree_loop.simps, simp add: demo_children Let_def)
  apply (subst subtree_loop.simps, simp add: demo_children Let_def)
  apply (subst subtree_loop.simps, simp add: demo_children Let_def)
  apply (subst subtree_loop.simps, simp add: demo_children Let_def)
  apply (subst subtree_loop.simps, simp add: demo_children Let_def)
  apply (subst subtree_loop.simps, simp add: demo_children Let_def)
  done

text \<open>The call of \<open>demo()\<close>: \<open>S = {0, 1, 2}\<close>, \<open>k = 2\<close>, \<open>B = 10.0\<close>.\<close>

lemma find_pivots_demo:
  "find_pivots exact demo_edges demo_d_hat {0, 1, 2} 2 (Val 10) = Some (Inr ({0}, {0, 1, 2, 3, 4, 5}))"
  using demo_no_key_error
  by (auto simp: find_pivots_def demo_relax_loop Let_def demo_indeg demo_subtree_size)

lemma demo_layer0: "relax_layer exact demo_edges demo_d_hat (Val 10) {0} = Inr {1, 2}"
  by (auto simp: relax_layer_def demo_edges_def demo_d_hat_def edges_get_def)

lemma demo_relax_loop1: "relax_loop (nat 1) exact demo_edges demo_d_hat (Val 10) {0} {0} = Inr {0, 1, 2}"
  by (auto simp: demo_layer0)

lemma empty_children: "children_of exact Map.empty Map.empty {0} 0 = []"
  by (simp add: children_of_def edges_get_def)

lemma empty_subtree_size: "subtree_size (children_of exact Map.empty Map.empty {0}) 0 = Some 1"
  unfolding subtree_size_def
  apply (subst subtree_loop.simps, simp add: empty_children Let_def)
  apply (subst subtree_loop.simps, simp add: empty_children Let_def)
  done

section \<open>\<open>find_pivots\<close>: the results\<close>

text \<open>
  Claim C3. If the relaxation phase ends with a frontier \<open>W\<close> such that
  \<open>|W| > k * max(1, |S|)\<close>, \<open>find_pivots\<close> returns \<open>(S, W)\<close>: the pivots are exactly \<open>S\<close>.
\<close>

theorem find_pivots_fast_path:
  assumes "relax_loop (nat k) ar edges d_hat B S S = Inr W"
    and "int (card W) > k * max 1 (int (card S))"
  shows "find_pivots ar edges d_hat S k B = Some (Inr (S, W))"
  using assms by (simp add: find_pivots_def)

theorem find_pivots_fast_path_witness:
  "find_pivots exact demo_edges demo_d_hat {0} 1 (Val 10) = Some (Inr ({0}, {0, 1, 2}))"
proof -
  have "int (card {0, 1, 2 :: int}) > 1 * max 1 (int (card {0 :: int}))"
    by simp
  from find_pivots_fast_path [OF demo_relax_loop1 this] show ?thesis .
qed

text \<open>
  Claim C4. Every pair \<open>(P, W)\<close> that \<open>find_pivots\<close> returns has \<open>S \<subseteq> W\<close> and \<open>P \<subseteq> S\<close>.
\<close>

theorem find_pivots_subsets:
  assumes "find_pivots ar edges d_hat S k B = Some (Inr (P, W))"
  shows "S \<subseteq> W \<and> P \<subseteq> S"
proof -
  from assms obtain W' where W': "relax_loop (nat k) ar edges d_hat B S S = Inr W'"
    by (cases "relax_loop (nat k) ar edges d_hat B S S") (auto simp: find_pivots_def)
  from relax_loop_grows [OF this] have "S \<subseteq> W'" .
  moreover from assms W' have "W = W'" and "P \<subseteq> S"
    by (auto simp: find_pivots_def Let_def split: if_splits)
  ultimately show ?thesis by simp
qed

theorem find_pivots_subsets_witness:
  "find_pivots exact demo_edges demo_d_hat {0, 1, 2} 2 (Val 10) = Some (Inr ({0}, {0, 1, 2, 3, 4, 5}))
   \<and> {0, 1, 2 :: int} \<subseteq> {0, 1, 2, 3, 4, 5} \<and> {0 :: int} \<subseteq> {0, 1, 2}"
  using find_pivots_subsets [OF find_pivots_demo] find_pivots_demo by simp

text \<open>
  Claim C2. When \<open>find_pivots\<close> returns \<open>(P, W)\<close> and the fast path was not taken
  (\<open>|W| \<le> k * max(1, |S|)\<close>), \<open>P\<close> is exactly the set of the vertices \<open>u\<close> of \<open>S\<close> such that
  no tight edge leaving a vertex of \<open>W\<close> enters \<open>u\<close> and at least \<open>k\<close> vertices, \<open>u\<close> included,
  can be reached from \<open>u\<close> in the forest of tight edges within \<open>W\<close>. An edge is tight when
  the float \<open>abs(d_hat[x] + w - d_hat[u])\<close> is below \<open>1e-12\<close> in the arithmetic of the
  program, of which nothing is assumed. \<open>S\<close> is a Python set, hence finite.
\<close>

theorem find_pivots_pivot_set:
  assumes "finite S"
    and "find_pivots ar edges d_hat S k B = Some (Inr (P, W))"
    and "\<not> int (card W) > k * max 1 (int (card S))"
  shows "P = {u \<in> S. (\<forall>x\<in>W. \<forall>w. (u, w) \<in> set (edges_get edges x) \<longrightarrow> \<not> tight_edge ar d_hat x w u)
                      \<and> k \<le> int (card ((forest ar edges d_hat W)\<^sup>* `` {u}))}"
proof -
  from assms(2) obtain W' where W': "relax_loop (nat k) ar edges d_hat B S S = Inr W'"
    by (cases "relax_loop (nat k) ar edges d_hat B S S") (auto simp: find_pivots_def)
  with assms(2) have WW: "W' = W"
    by (auto simp: find_pivots_def Let_def split: if_splits)
  from assms(2,3) W' WW have ok: "\<forall>u\<in>W. \<not> isl (tight_children ar d_hat W u (edges_get edges u) [])"
    by (auto simp: find_pivots_def Let_def split: if_splits)
  from find_pivots_slow_path [OF W' [unfolded WW] assms(3) ok assms(1)] assms(2)
  show ?thesis by simp
qed

theorem find_pivots_pivot_set_witness:
  "find_pivots exact demo_edges demo_d_hat {0, 1, 2} 2 (Val 10) = Some (Inr ({0}, {0, 1, 2, 3, 4, 5}))
   \<and> {0} = {u \<in> {0, 1, 2}.
        (\<forall>x\<in>{0, 1, 2, 3, 4, 5}. \<forall>w. (u, w) \<in> set (edges_get demo_edges x)
             \<longrightarrow> \<not> tight_edge exact demo_d_hat x w u)
        \<and> 2 \<le> int (card ((forest exact demo_edges demo_d_hat {0, 1, 2, 3, 4, 5})\<^sup>* `` {u}))}"
proof -
  have "finite {0, 1, 2 :: int}"
    by simp
  moreover have "\<not> int (card {0, 1, 2, 3, 4, 5 :: int}) > 2 * max 1 (int (card {0, 1, 2 :: int}))"
    by simp
  ultimately show ?thesis
    using find_pivots_pivot_set [of "{0, 1, 2}" exact demo_edges demo_d_hat 2 "Val 10" "{0}" "{0, 1, 2, 3, 4, 5}"]
      find_pivots_demo
    by blast
qed

text \<open>\<open>find_pivots\<close> raises \<open>KeyError\<close> exactly when an estimate that it reads is missing, and
  otherwise, for a finite \<open>S\<close>, it returns the frontier with a set of pivots.\<close>

lemma find_pivots_raises_iff:
  "find_pivots ar edges d_hat S k B = Some (Inl KeyError) \<longleftrightarrow> read_missing ar edges d_hat S k B"
proof (cases "relax_loop (nat k) ar edges d_hat B S S")
  case (Inl e)
  then have "e = KeyError" and "\<exists>u\<in>relaxed (nat k) ar edges d_hat B S. lacks edges d_hat UNIV u"
    by (simp_all add: relax_loop_fails_iff)
  with Inl show ?thesis
    by (simp add: find_pivots_def read_missing_def)
next
  case (Inr W)
  then have "relax_loop (nat k) ar edges d_hat B S S \<noteq> Inl KeyError"
    by simp
  then have none: "\<not> (\<exists>u\<in>relaxed (nat k) ar edges d_hat B S. lacks edges d_hat UNIV u)"
    by (simp add: relax_loop_fails_iff)
  from relax_loop_frontier [OF Inr] have fr: "frontier ar edges d_hat S k B = W" .
  show ?thesis
  proof (cases "int (card W) > k * max 1 (int (card S))")
    case True
    with Inr none fr show ?thesis
      by (simp add: find_pivots_def read_missing_def)
  next
    case False
    show ?thesis
    proof (cases "\<exists>u\<in>W. isl (tight_children ar d_hat W u (edges_get edges u) [])")
      case True
      moreover from True have "\<exists>u\<in>W. lacks edges d_hat W u"
        by (simp only: forest_fails_iff)
      ultimately show ?thesis
        using Inr False fr by (simp add: find_pivots_def read_missing_def)
    next
      case ok: False
      then have "\<not> (\<exists>u\<in>W. lacks edges d_hat W u)"
        by (simp only: forest_fails_iff) simp
      with Inr False ok none fr show ?thesis
        by (simp add: find_pivots_def read_missing_def Let_def)
    qed
  qed
qed

lemma find_pivots_returns_unless_missing:
  assumes "finite S" and "\<not> read_missing ar edges d_hat S k B"
  shows "\<exists>P. find_pivots ar edges d_hat S k B = Some (Inr (P, frontier ar edges d_hat S k B))"
proof (cases "relax_loop (nat k) ar edges d_hat B S S")
  case (Inl e)
  then have "e = KeyError"
    by (simp add: relax_loop_fails_iff)
  with Inl have "find_pivots ar edges d_hat S k B = Some (Inl KeyError)"
    by (simp add: find_pivots_def)
  with assms(2) show ?thesis
    by (simp add: find_pivots_raises_iff)
next
  case (Inr W)
  from relax_loop_frontier [OF Inr] have fr: "frontier ar edges d_hat S k B = W" .
  show ?thesis
  proof (cases "int (card W) > k * max 1 (int (card S))")
    case True
    with Inr fr show ?thesis by (simp add: find_pivots_def)
  next
    case False
    with assms(2) fr have "\<not> (\<exists>u\<in>W. lacks edges d_hat W u)"
      by (simp add: read_missing_def)
    then have ok: "\<forall>u\<in>W. \<not> isl (tight_children ar d_hat W u (edges_get edges u) [])"
      using forest_fails_iff [of W ar d_hat edges] by blast
    from find_pivots_slow_path [OF Inr False ok assms(1)] fr show ?thesis by simp
  qed
qed

lemma covered_not_missing:
  assumes "\<forall>u\<in>frontier ar edges d_hat S k B. \<forall>(v, w)\<in>set (edges_get edges u).
             d_hat u \<noteq> None \<and> d_hat v \<noteq> None"
  shows "\<not> read_missing ar edges d_hat S k B"
proof -
  let ?W = "frontier ar edges d_hat S k B"
  from relax_loop_read0_total [of "nat k" ar edges d_hat B S S]
  obtain W where W: "relax_loop (nat k) ar edges (read0 ar d_hat) B S S = Inr W"
    by blast
  then have fr: "?W = W" by (simp add: frontier_def)
  from relax_loop_read0 [OF W _ assms [unfolded fr]]
  have run: "relax_loop (nat k) ar edges d_hat B S S = Inr W" by simp
  then have "relax_loop (nat k) ar edges d_hat B S S \<noteq> Inl KeyError"
    by simp
  then have "\<not> (\<exists>u\<in>relaxed (nat k) ar edges d_hat B S. lacks edges d_hat UNIV u)"
    by (simp add: relax_loop_fails_iff)
  moreover from assms have "\<not> (\<exists>u\<in>?W. lacks edges d_hat ?W u)"
    by (fastforce simp: lacks_def)
  ultimately show ?thesis
    by (simp add: read_missing_def)
qed

text \<open>
  Claim C10 (as amended). \<open>S\<close> is a Python set, hence finite. First, as the claim says:
  when \<open>d_hat\<close> has a value for every vertex of \<open>S\<close> and for both endpoints of every edge
  leaving a vertex of the accumulated frontier \<open>W\<close>, no lookup fails and \<open>find_pivots\<close>
  returns a pair \<open>(P, W)\<close>. Second, a missing estimate makes the call raise \<open>KeyError\<close>
  whenever it is read: in particular when at least one round is run (\<open>k \<ge> 1\<close>) and a
  vertex of \<open>S\<close> has an edge one of whose endpoints has no estimate; and in general when
  \<open>read_missing\<close> holds, that is, for an edge leaving a vertex of a relaxed layer, or, off
  the fast path, for an edge between two vertices of \<open>W\<close>. Third, these are the only
  lookups: when no estimate that is read is missing, the call returns. Nothing is assumed
  of the arithmetic.
\<close>

theorem find_pivots_returns:
  assumes "finite S"
  shows "((\<forall>u\<in>S. d_hat u \<noteq> None)
            \<and> (\<forall>u\<in>frontier ar edges d_hat S k B. \<forall>(v, w)\<in>set (edges_get edges u).
                  d_hat u \<noteq> None \<and> d_hat v \<noteq> None)
          \<longrightarrow> (\<exists>P. find_pivots ar edges d_hat S k B = Some (Inr (P, frontier ar edges d_hat S k B))))
       \<and> (1 \<le> k \<and> (\<exists>u\<in>S. \<exists>(v, w)\<in>set (edges_get edges u). d_hat u = None \<or> d_hat v = None)
          \<longrightarrow> find_pivots ar edges d_hat S k B = Some (Inl KeyError))
       \<and> (read_missing ar edges d_hat S k B
          \<longrightarrow> find_pivots ar edges d_hat S k B = Some (Inl KeyError))
       \<and> (\<not> read_missing ar edges d_hat S k B
          \<longrightarrow> (\<exists>P. find_pivots ar edges d_hat S k B = Some (Inr (P, frontier ar edges d_hat S k B))))"
proof (intro conjI impI)
  assume "(\<forall>u\<in>S. d_hat u \<noteq> None)
            \<and> (\<forall>u\<in>frontier ar edges d_hat S k B. \<forall>(v, w)\<in>set (edges_get edges u).
                  d_hat u \<noteq> None \<and> d_hat v \<noteq> None)"
  then have "\<not> read_missing ar edges d_hat S k B"
    by (intro covered_not_missing) simp
  with assms show "\<exists>P. find_pivots ar edges d_hat S k B = Some (Inr (P, frontier ar edges d_hat S k B))"
    by (rule find_pivots_returns_unless_missing)
next
  assume a: "1 \<le> k \<and> (\<exists>u\<in>S. \<exists>(v, w)\<in>set (edges_get edges u). d_hat u = None \<or> d_hat v = None)"
  then obtain u where u: "u \<in> S" "lacks edges d_hat UNIV u"
    by (auto simp: lacks_def)
  from a have "S \<subseteq> relaxed (nat k) ar edges d_hat B S"
    by (intro relaxed_first_layer) simp
  with u have "read_missing ar edges d_hat S k B"
    unfolding read_missing_def by blast
  then show "find_pivots ar edges d_hat S k B = Some (Inl KeyError)"
    by (simp add: find_pivots_raises_iff)
next
  assume "read_missing ar edges d_hat S k B"
  then show "find_pivots ar edges d_hat S k B = Some (Inl KeyError)"
    by (simp add: find_pivots_raises_iff)
next
  assume "\<not> read_missing ar edges d_hat S k B"
  with assms show "\<exists>P. find_pivots ar edges d_hat S k B = Some (Inr (P, frontier ar edges d_hat S k B))"
    by (rule find_pivots_returns_unless_missing)
qed

theorem find_pivots_returns_witness:
  "(\<exists>P. find_pivots exact demo_edges demo_d_hat {0, 1, 2} 2 (Val 10)
           = Some (Inr (P, {0, 1, 2, 3, 4, 5})))
   \<and> find_pivots exact one_edge one_d_hat {0} 1 (Val 10) = Some (Inl KeyError)"
proof -
  have fr: "frontier exact demo_edges demo_d_hat {0, 1, 2} 2 (Val 10) = {0, 1, 2, 3, 4, 5}"
    by (rule relax_loop_frontier) (simp add: demo_relax_loop)
  have fin: "finite {0, 1, 2 :: int}" "finite {0 :: int}"
    by simp_all
  have "\<forall>u\<in>{0, 1, 2}. demo_d_hat u \<noteq> None"
    by (simp add: demo_d_hat_def)
  moreover have "\<forall>u\<in>frontier exact demo_edges demo_d_hat {0, 1, 2} 2 (Val 10).
      \<forall>(v, w)\<in>set (edges_get demo_edges u). demo_d_hat u \<noteq> None \<and> demo_d_hat v \<noteq> None"
    unfolding fr by (simp add: demo_edges_def demo_d_hat_def edges_get_def)
  ultimately have first: "\<exists>P. find_pivots exact demo_edges demo_d_hat {0, 1, 2} 2 (Val 10)
           = Some (Inr (P, {0, 1, 2, 3, 4, 5}))"
    using find_pivots_returns [OF fin(1), of demo_d_hat exact demo_edges 2 "Val 10"]
    by (simp add: fr)
  have "(1::int) \<le> 1 \<and> (\<exists>u\<in>{0}. \<exists>(v, w)\<in>set (edges_get one_edge u). one_d_hat u = None \<or> one_d_hat v = None)"
    by (simp add: one_edge_def one_d_hat_def edges_get_def)
  with find_pivots_returns [OF fin(2), of one_d_hat exact one_edge 1 "Val 10"]
  have "find_pivots exact one_edge one_d_hat {0} 1 (Val 10) = Some (Inl KeyError)"
    by blast
  with first show ?thesis by simp
qed

text \<open>
  Claim C10 as stated says that a vertex of \<open>S\<close>, or an endpoint of an edge leaving a
  vertex of \<open>W\<close>, that is missing from \<open>d_hat\<close> makes the call raise. It does not when its
  estimate is never read. In the first call the vertex 0 of \<open>S\<close> has no estimate and no
  edge; in the second the edge \<open>0 \<rightarrow> 1\<close> leaves \<open>W\<close>, its endpoint 1 has no estimate, and no
  round of relaxation is run (\<open>k = 0\<close>). Both calls return. (No float operation is
  evaluated in either call.)
\<close>

theorem find_pivots_missing_estimate_returns:
  "find_pivots exact Map.empty Map.empty {0} 1 (Val 10) = Some (Inr ({0}, {0}))
   \<and> find_pivots exact one_edge one_d_hat {0} 0 (Val 10) = Some (Inr ({0}, {0}))
   \<and> one_d_hat 1 = None \<and> (1, Val 1) \<in> set (edges_get one_edge 0)"
proof (intro conjI)
  show "find_pivots exact Map.empty Map.empty {0} 1 (Val 10) = Some (Inr ({0}, {0}))"
    by (auto simp: find_pivots_def relax_layer_def edges_get_def indeg_of_def
        empty_subtree_size empty_children Let_def)
  show "find_pivots exact one_edge one_d_hat {0} 0 (Val 10) = Some (Inr ({0}, {0}))"
    by (simp add: find_pivots_def)
qed (simp_all add: one_edge_def one_d_hat_def edges_get_def)

section \<open>\<open>dijkstra\<close>: the cost of the returned path\<close>


lemma heap_min_mem: "heap_min a bs \<in> set (a # bs)"
  by (induction bs arbitrary: a) (auto split: if_splits)

lemma heap_min_least: "x \<in> set (a # bs) \<Longrightarrow> fst (heap_min a bs) \<le> fst x"
proof (induction bs arbitrary: a x)
  case Nil
  then show ?case by simp
next
  case (Cons b bs)
  let ?c = "if tuple_le a b then a else b"
  have c: "fst ?c \<le> fst a" "fst ?c \<le> fst b"
    by (auto simp: tuple_le_def)
  have least: "fst (heap_min ?c bs) \<le> fst y" if "y \<in> set (?c # bs)" for y
    using that by (rule Cons.IH)
  from least [of ?c] have "fst (heap_min ?c bs) \<le> fst ?c" by simp
  with c have ab: "fst (heap_min ?c bs) \<le> fst a" "fst (heap_min ?c bs) \<le> fst b"
    by (blast intro: order_trans)+
  have hm: "heap_min a (b # bs) = heap_min ?c bs" by simp
  from Cons.prems consider "x = a" | "x = b" | "x \<in> set bs" by auto
  then show ?case
  proof cases
    case 1
    with ab(1) show ?thesis unfolding hm by simp
  next
    case 2
    with ab(2) show ?thesis unfolding hm by simp
  next
    case 3
    with least [of x] show ?thesis unfolding hm by simp
  qed
qed

text \<open>One update of the inner loop keeps the invariant, and it never touches a vertex
  whose edges have been relaxed: the candidate \<open>d + w\<close> is not below \<open>d\<close>.\<close>

lemma dj_inv_update:
  assumes laws: "float_laws ar"
    and inv: "dj_inv ar adj start d X (dists, prevs, pq)"
    and uX: "u \<in> X" and du: "dists u = Some d"
    and edge: "(v, w) \<in> set (edges_get adj u)" and w: "f_zero ar \<le> w"
    and dv: "dists v = Some dv" and yes: "f_add ar d w < dv"
  shows "dj_inv ar adj start d X
           (dists(v \<mapsto> f_add ar d w), prevs(v \<mapsto> Some u), heappush pq (f_add ar d w, v))"
    and "v \<notin> X"
proof -
  let ?nd = "f_add ar d w"
  from inv have inv:
      "\<forall>(k, v)\<in>set pq. d \<le> k \<and> k < f_inf ar" "f_zero ar \<le> d" "d < f_inf ar"
      "\<forall>v\<in>X. \<exists>dv. dists v = Some dv \<and> dv \<le> d"
      "\<forall>v p. prevs v = Some (Some p) \<longrightarrow>
          p \<in> X \<and> (\<exists>dp w. dists p = Some dp \<and> dp \<noteq> f_inf ar
                        \<and> (v, w) \<in> set (edges_get adj p)
                        \<and> dists v = Some (f_add ar dp w))"
      "\<forall>v dv. dists v = Some dv \<longrightarrow> dv \<noteq> f_inf ar \<longrightarrow>
          f_zero ar \<le> dv \<and> (prevs v = Some None \<longrightarrow> v = start \<and> dv = f_zero ar)"
    by (simp_all add: dj_inv_def)
  from laws inv(2) w have grow: "d \<le> ?nd"
    by (simp add: float_laws_def)
  from laws have "dv \<le> f_inf ar"
    by (simp add: float_laws_def)
  with yes have fin: "?nd < f_inf ar"
    by (rule less_le_trans)
  from inv(2) grow have pos: "f_zero ar \<le> ?nd"
    by (rule order_trans)
  from inv(3) have dfin: "d \<noteq> f_inf ar"
    by simp
  show vX: "v \<notin> X"
  proof
    assume "v \<in> X"
    with inv(4) obtain x where "dists v = Some x" "x \<le> d" by blast
    with dv have "dv \<le> d" by simp
    with yes have "?nd < d" by (rule less_le_trans)
    with grow show False by simp
  qed
  from vX uX have uv: "u \<noteq> v" by blast
  show "dj_inv ar adj start d X (dists(v \<mapsto> ?nd), prevs(v \<mapsto> Some u), heappush pq (?nd, v))"
    unfolding dj_inv_def prod.case
  proof (intro conjI)
    show "\<forall>(k, v)\<in>set (heappush pq (?nd, v)). d \<le> k \<and> k < f_inf ar"
      using inv(1) grow fin by (auto simp: heappush_def)
    show "f_zero ar \<le> d" by (rule inv(2))
    show "d < f_inf ar" by (rule inv(3))
    show "\<forall>x\<in>X. \<exists>dv. (dists(v \<mapsto> ?nd)) x = Some dv \<and> dv \<le> d"
    proof
      fix x assume "x \<in> X"
      with vX have "x \<noteq> v" by blast
      with inv(4) \<open>x \<in> X\<close>
      show "\<exists>dv. (dists(v \<mapsto> ?nd)) x = Some dv \<and> dv \<le> d"
        by simp
    qed
    show "\<forall>x p. (prevs(v \<mapsto> Some u)) x = Some (Some p) \<longrightarrow>
            p \<in> X \<and> (\<exists>dp wa. (dists(v \<mapsto> ?nd)) p = Some dp \<and> dp \<noteq> f_inf ar
              \<and> (x, wa) \<in> set (edges_get adj p)
              \<and> (dists(v \<mapsto> ?nd)) x = Some (f_add ar dp wa))"
    proof (intro allI impI)
      fix x p assume p: "(prevs(v \<mapsto> Some u)) x = Some (Some p)"
      have pX: "p \<in> X"
        using p inv(5) uX by (auto split: if_splits)
      have "\<exists>dp wa. (dists(v \<mapsto> ?nd)) p = Some dp \<and> dp \<noteq> f_inf ar
              \<and> (x, wa) \<in> set (edges_get adj p)
              \<and> (dists(v \<mapsto> ?nd)) x = Some (f_add ar dp wa)"
      proof (cases "x = v")
        case True
        with p have "p = u" by simp
        with True du uv edge dfin show ?thesis by auto
      next
        case False
        with p have "prevs x = Some (Some p)" by simp
        with inv(5) obtain dp wa where "p \<in> X" "dists p = Some dp" "dp \<noteq> f_inf ar"
            "(x, wa) \<in> set (edges_get adj p)" "dists x = Some (f_add ar dp wa)"
          by blast
        moreover from this(1) vX have "p \<noteq> v" by blast
        ultimately show ?thesis using False by auto
      qed
      with pX show "p \<in> X \<and> (\<exists>dp wa. (dists(v \<mapsto> ?nd)) p = Some dp \<and> dp \<noteq> f_inf ar
              \<and> (x, wa) \<in> set (edges_get adj p)
              \<and> (dists(v \<mapsto> ?nd)) x = Some (f_add ar dp wa))"
        by simp
    qed
    show "\<forall>x dx. (dists(v \<mapsto> ?nd)) x = Some dx \<longrightarrow> dx \<noteq> f_inf ar \<longrightarrow>
            f_zero ar \<le> dx \<and> ((prevs(v \<mapsto> Some u)) x = Some None \<longrightarrow> x = start \<and> dx = f_zero ar)"
      using inv(6) pos by (auto split: if_splits)
  qed
qed






lemma dj_inv_initial:
  assumes "float_laws ar"
  shows "dj_inv ar adj start (f_zero ar) {}
           ((map_option (\<lambda>_. f_inf ar) \<circ> adj)(start \<mapsto> f_zero ar),
            map_option (\<lambda>_. None) \<circ> adj, [(f_zero ar, start)])"
  using assms by (auto simp: dj_inv_def float_laws_def split: if_splits)










section \<open>\<open>dijkstra\<close>: a result is returned\<close>

text \<open>
  On a finite graph with nonnegative weights whose neighbours are all keys, each vertex has
  its edges relaxed at most once, so the main loop ends; the predecessors of the relaxed
  vertices point backwards in the order of relaxation, so the reconstruction ends; and no
  lookup fails.
\<close>

lemma dj_extra_update:
  assumes ex: "dj_extra adj xs (dists, prevs, pq)"
    and vX: "v \<notin> set xs" and dv: "dists v = Some dv" and yes: "nd < dv"
  shows "dj_extra adj xs (dists(v \<mapsto> nd), prevs(v \<mapsto> Some u), heappush pq (nd, v))"
proof -
  from ex have ex:
      "distinct xs" "set xs \<subseteq> dom adj" "dom dists = dom adj" "dom prevs = dom adj" "distinct pq"
      "\<forall>(k, v)\<in>set pq. \<exists>dv. dists v = Some dv \<and> dv \<le> k \<and> (v \<in> set xs \<longrightarrow> dv < k)"
      "\<forall>v p. prevs v = Some (Some p) \<longrightarrow> v \<in> set xs \<longrightarrow> before p v xs"
    by (simp_all add: dj_extra_def)
  from dv ex(3) have vdom: "v \<in> dom adj" by auto
  have fresh: "(nd, v) \<notin> set pq"
  proof
    assume "(nd, v) \<in> set pq"
    with ex(6) obtain x where "dists v = Some x" "x \<le> nd" by blast
    with dv yes show False by auto
  qed
  show ?thesis
    unfolding dj_extra_def prod.case
  proof (intro conjI)
    show "distinct xs" by (rule ex(1))
    show "set xs \<subseteq> dom adj" by (rule ex(2))
    show "dom (dists(v \<mapsto> nd)) = dom adj" using ex(3) vdom by auto
    show "dom (prevs(v \<mapsto> Some u)) = dom adj" using ex(4) vdom by auto
    show "distinct (heappush pq (nd, v))" using ex(5) fresh by (simp add: heappush_def)
    show "\<forall>(k, x)\<in>set (heappush pq (nd, v)).
            \<exists>dx. (dists(v \<mapsto> nd)) x = Some dx \<and> dx \<le> k \<and> (x \<in> set xs \<longrightarrow> dx < k)"
    proof (intro ballI, clarify)
      fix k x assume "(k, x) \<in> set (heappush pq (nd, v))"
      then consider "k = nd" "x = v" | "(k, x) \<in> set pq"
        by (auto simp: heappush_def)
      then show "\<exists>dx. (dists(v \<mapsto> nd)) x = Some dx \<and> dx \<le> k \<and> (x \<in> set xs \<longrightarrow> dx < k)"
      proof cases
        case 1
        with vX show ?thesis by simp
      next
        case 2
        with ex(6) obtain dx where dx: "dists x = Some dx" "dx \<le> k" "x \<in> set xs \<longrightarrow> dx < k"
          by blast
        show ?thesis
        proof (cases "x = v")
          case True
          with dx dv yes vX show ?thesis by auto
        next
          case False
          with dx show ?thesis by simp
        qed
      qed
    qed
    show "\<forall>x p. (prevs(v \<mapsto> Some u)) x = Some (Some p) \<longrightarrow> x \<in> set xs \<longrightarrow> before p x xs"
      using ex(7) vX by (auto split: if_splits)
  qed
qed

lemma relax_total:
  assumes "float_laws ar"
    and "dj_inv ar adj start d (set xs) st" and "dj_extra adj xs st"
    and "u \<in> set xs" and "fst st u = Some d"
    and "set es \<subseteq> set (edges_get adj u)"
    and "\<forall>(v, w)\<in>set es. f_zero ar \<le> w"
    and "\<forall>(v, w)\<in>set es. adj v \<noteq> None"
  shows "\<exists>st'. relax ar d u banned es st = Inr st' \<and> dj_inv ar adj start d (set xs) st'
           \<and> dj_extra adj xs st'
           \<and> length (snd (snd st')) \<le> length (snd (snd st)) + length es"
  using assms(2-)
proof (induction es arbitrary: st)
  case Nil
  then show ?case by simp
next
  case (Cons e es)
  obtain v w where e: "e = (v, w)" by (cases e)
  obtain dists prevs pq where st: "st = (dists, prevs, pq)" by (cases st)
  from Cons.prems(5,6,7) have sub: "set es \<subseteq> set (edges_get adj u)"
    and nn: "\<forall>(v, w)\<in>set es. f_zero ar \<le> w" and cl: "\<forall>(v, w)\<in>set es. adj v \<noteq> None"
    and edge: "(v, w) \<in> set (edges_get adj u)" and w: "f_zero ar \<le> w" and vk: "adj v \<noteq> None"
    by (auto simp: e)
  note IH = Cons.IH [OF _ _ Cons.prems(3) _ sub nn cl]
  from Cons.prems(3,4) have du: "dists u = Some d" and uX: "u \<in> set xs"
    by (simp_all add: st)
  have same: ?case if "relax ar d u banned (e # es) st = relax ar d u banned es st"
  proof -
    from IH [OF Cons.prems(1,2,4)] obtain st' where "relax ar d u banned es st = Inr st'"
        "dj_inv ar adj start d (set xs) st'" "dj_extra adj xs st'"
        "length (snd (snd st')) \<le> length (snd (snd st)) + length es"
      by blast
    with that show ?thesis by auto
  qed
  show ?case
  proof (cases "v \<in> banned")
    case True
    then show ?thesis by (intro same) (simp add: e st)
  next
    case False
    from Cons.prems(2) have "dom dists = dom adj"
      by (simp add: dj_extra_def st)
    with vk obtain dv where dv: "dists v = Some dv" by blast
    show ?thesis
    proof (cases "f_add ar d w < dv")
      case no: False
      with False dv show ?thesis by (intro same) (simp add: e st)
    next
      case yes: True
      let ?st = "(dists(v \<mapsto> f_add ar d w), prevs(v \<mapsto> Some u), heappush pq (f_add ar d w, v))"
      from False dv yes have run: "relax ar d u banned (e # es) st = relax ar d u banned es ?st"
        by (simp add: e st Let_def)
      note upd = dj_inv_update [OF assms(1) Cons.prems(1) [unfolded st] uX du edge w dv yes]
      from dj_extra_update [OF Cons.prems(2) [unfolded st] upd(2) dv yes]
      have extra: "dj_extra adj xs ?st" .
      from upd(2) uX have "u \<noteq> v" by blast
      with du have "fst ?st u = Some d" by simp
      from IH [OF upd(1) extra this] obtain st' where "relax ar d u banned es ?st = Inr st'"
          "dj_inv ar adj start d (set xs) st'" "dj_extra adj xs st'"
          "length (snd (snd st')) \<le> length (snd (snd ?st)) + length es"
        by blast
      with run show ?thesis by (auto simp: st heappush_def)
    qed
  qed
qed

lemma todo_expand:
  assumes "finite (dom adj)" and "u \<in> dom adj" and "u \<notin> set xs"
  shows "todo adj xs = todo adj (xs @ [u]) + Suc (length (edges_get adj u))"
proof -
  let ?A = "dom adj - set (xs @ [u])"
  have split: "dom adj - set xs = insert u ?A"
    using assms(2,3) by auto
  have "finite ?A" and "u \<notin> ?A"
    using assms(1) by auto
  then have "(\<Sum>v\<in>insert u ?A. Suc (length (edges_get adj v)))
               = Suc (length (edges_get adj u)) + (\<Sum>v\<in>?A. Suc (length (edges_get adj v)))"
    by (rule sum.insert)
  then show ?thesis
    unfolding todo_def split by linarith
qed

lemma before_append:
  assumes "before p v xs"
  shows "before p v (xs @ ys)"
proof -
  from assms obtain as bs where "xs = as @ v # bs" "p \<in> set as"
    unfolding before_def by blast
  then have "xs @ ys = as @ v # (bs @ ys) \<and> p \<in> set as" by simp
  then show ?thesis unfolding before_def by blast
qed

lemma before_last: "p \<in> set xs \<Longrightarrow> before p u (xs @ [u])"
  unfolding before_def by (rule exI [of _ xs], rule exI [of _ "[]"]) simp

lemma dijkstra_loop_total:
  assumes laws: "float_laws ar"
    and fin: "finite (dom adj)" and nn: "nonneg_weights ar adj" and cl: "closed_graph adj"
  shows "dj_inv ar adj start m (set xs) st \<Longrightarrow> dj_extra adj xs st \<Longrightarrow>
         \<exists>ds ps m' xs' pq'. dijkstra_loop ar adj goal banned st = Some (Inr (ds, ps))
            \<and> dj_inv ar adj start m' (set xs') (ds, ps, pq') \<and> dj_extra adj xs' (ds, ps, pq')"
proof (induction "todo adj xs + length (snd (snd st))" arbitrary: st m xs rule: less_induct)
  case less
  obtain dists prevs pq where st: "st = (dists, prevs, pq)" by (cases st)
  note inv = less.prems(1) [unfolded st]
  note extra = less.prems(2) [unfolded st]
  show ?case
  proof (cases pq)
    case Nil
    have "dijkstra_loop ar adj goal banned st = Some (Inr (dists, prevs))"
      by (subst dijkstra_loop.simps) (simp add: st Nil)
    with inv extra show ?thesis by blast
  next
    case (Cons a bs)
    obtain d u where du: "heap_min a bs = (d, u)" by (cases "heap_min a bs")
    let ?pq = "remove1 (d, u) (a # bs)"
    from heap_min_mem [of a bs] du Cons have mem: "(d, u) \<in> set pq" by simp
    have least: "\<forall>(k, v)\<in>set pq. d \<le> k"
      using heap_min_least [of _ a bs] du Cons by fastforce
    from inv have inv':
        "\<forall>(k, v)\<in>set pq. m \<le> k \<and> k < f_inf ar" "f_zero ar \<le> m" "m < f_inf ar"
        "\<forall>v\<in>set xs. \<exists>dv. dists v = Some dv \<and> dv \<le> m"
        "\<forall>v p. prevs v = Some (Some p) \<longrightarrow>
            p \<in> set xs \<and> (\<exists>dp w. dists p = Some dp \<and> dp \<noteq> f_inf ar
                          \<and> (v, w) \<in> set (edges_get adj p)
                          \<and> dists v = Some (f_add ar dp w))"
        "\<forall>v dv. dists v = Some dv \<longrightarrow> dv \<noteq> f_inf ar \<longrightarrow>
            f_zero ar \<le> dv \<and> (prevs v = Some None \<longrightarrow> v = start \<and> dv = f_zero ar)"
      by (simp_all add: dj_inv_def)
    from extra have ex:
        "distinct xs" "set xs \<subseteq> dom adj" "dom dists = dom adj" "dom prevs = dom adj" "distinct pq"
        "\<forall>(k, v)\<in>set pq. \<exists>dv. dists v = Some dv \<and> dv \<le> k \<and> (v \<in> set xs \<longrightarrow> dv < k)"
        "\<forall>v p. prevs v = Some (Some p) \<longrightarrow> v \<in> set xs \<longrightarrow> before p v xs"
      by (simp_all add: dj_extra_def)
    have setpq: "set ?pq = set pq - {(d, u)}"
      unfolding Cons [symmetric] using ex(5) by (rule set_remove1_eq)
    have dpq: "distinct ?pq"
      unfolding Cons [symmetric] using ex(5) by simp
    have lpq: "Suc (length ?pq) = length pq"
      unfolding Cons [symmetric] using mem length_pos_if_in_set [OF mem]
      by (simp add: length_remove1)
    from inv'(1) mem have md: "m \<le> d" and dfin: "d < f_inf ar" by auto
    from ex(6) mem obtain du' where c: "dists u = Some du'" and le: "du' \<le> d"
        and strict: "u \<in> set xs \<longrightarrow> du' < d"
      by blast
    have unfold: "dijkstra_loop ar adj goal banned st =
        (if d \<noteq> du' \<or> u \<in> banned then dijkstra_loop ar adj goal banned (dists, prevs, ?pq)
         else if u = goal then Some (Inr (dists, prevs))
         else (case adj u of
                 None \<Rightarrow> Some (Inl KeyError)
               | Some nbrs \<Rightarrow>
                   (case relax ar d u banned nbrs (dists, prevs, ?pq) of
                      Inl e \<Rightarrow> Some (Inl e)
                    | Inr st' \<Rightarrow> dijkstra_loop ar adj goal banned st')))"
      by (subst dijkstra_loop.simps) (simp add: st Cons du c Let_def del: remove1.simps)
    show ?thesis
    proof (cases "d \<noteq> du' \<or> u \<in> banned")
      case True
      have i1: "dj_inv ar adj start m (set xs) (dists, prevs, ?pq)"
        unfolding dj_inv_def prod.case
      proof (intro conjI)
        show "\<forall>(k, v)\<in>set ?pq. m \<le> k \<and> k < f_inf ar"
          using inv'(1) setpq by blast
      qed (use inv' in blast)+
      have e1: "dj_extra adj xs (dists, prevs, ?pq)"
        unfolding dj_extra_def prod.case
      proof (intro conjI)
        show "distinct ?pq" by (rule dpq)
        show "\<forall>(k, v)\<in>set ?pq. \<exists>dv. dists v = Some dv \<and> dv \<le> k \<and> (v \<in> set xs \<longrightarrow> dv < k)"
          using ex(6) setpq by blast
      qed (use ex in blast)+
      have "todo adj xs + length (snd (snd (dists, prevs, ?pq))) < todo adj xs + length (snd (snd st))"
        using lpq by (simp add: st)
      from less.hyps [OF this i1 e1] True unfold show ?thesis by simp
    next
      case False
      then have dd: "du' = d" and nb: "u \<notin> banned" by auto
      with c have cd: "dists u = Some d" by simp
      show ?thesis
      proof (cases "u = goal")
        case True
        with False unfold have "dijkstra_loop ar adj goal banned st = Some (Inr (dists, prevs))"
          by simp
        with inv extra show ?thesis by blast
      next
        case ng: False
        from strict dd have unew: "u \<notin> set xs" by auto
        from cd ex(3) have udom: "u \<in> dom adj" by auto
        then obtain nbrs where nbrs: "adj u = Some nbrs" by auto
        have i2: "dj_inv ar adj start d (set (xs @ [u])) (dists, prevs, ?pq)"
          unfolding dj_inv_def prod.case
        proof (intro conjI)
          show "\<forall>(k, v)\<in>set ?pq. d \<le> k \<and> k < f_inf ar"
            using least inv'(1) setpq by blast
          show "f_zero ar \<le> d" using inv'(2) md by (rule order_trans)
          show "d < f_inf ar" by (rule dfin)
          show "\<forall>v\<in>set (xs @ [u]). \<exists>dv. dists v = Some dv \<and> dv \<le> d"
            using inv'(4) cd md by (auto intro: order_trans)
          show "\<forall>v p. prevs v = Some (Some p) \<longrightarrow>
            p \<in> set (xs @ [u]) \<and> (\<exists>dp w. dists p = Some dp \<and> dp \<noteq> f_inf ar
                          \<and> (v, w) \<in> set (edges_get adj p)
                          \<and> dists v = Some (f_add ar dp w))"
            using inv'(5) by simp
          show "\<forall>v dv. dists v = Some dv \<longrightarrow> dv \<noteq> f_inf ar \<longrightarrow>
            f_zero ar \<le> dv \<and> (prevs v = Some None \<longrightarrow> v = start \<and> dv = f_zero ar)"
            by (rule inv'(6))
        qed
        have e2: "dj_extra adj (xs @ [u]) (dists, prevs, ?pq)"
          unfolding dj_extra_def prod.case
        proof (intro conjI)
          show "distinct (xs @ [u])" using ex(1) unew by simp
          show "set (xs @ [u]) \<subseteq> dom adj" using ex(2) udom by simp
          show "dom dists = dom adj" by (rule ex(3))
          show "dom prevs = dom adj" by (rule ex(4))
          show "distinct ?pq" by (rule dpq)
          show "\<forall>(k, v)\<in>set ?pq. \<exists>dv. dists v = Some dv \<and> dv \<le> k
                  \<and> (v \<in> set (xs @ [u]) \<longrightarrow> dv < k)"
          proof (intro ballI, clarify)
            fix k v assume kv: "(k, v) \<in> set ?pq"
            with setpq have in_pq: "(k, v) \<in> set pq" and ne: "(k, v) \<noteq> (d, u)" by auto
            from ex(6) in_pq obtain dv where dv: "dists v = Some dv" "dv \<le> k"
                "v \<in> set xs \<longrightarrow> dv < k"
              by blast
            have "dv < k" if "v = u"
              using that dv cd ne by auto
            with dv show "\<exists>dv. dists v = Some dv \<and> dv \<le> k \<and> (v \<in> set (xs @ [u]) \<longrightarrow> dv < k)"
              by auto
          qed
          show "\<forall>v p. prevs v = Some (Some p) \<longrightarrow> v \<in> set (xs @ [u]) \<longrightarrow> before p v (xs @ [u])"
          proof (intro allI impI)
            fix v p assume p: "prevs v = Some (Some p)" and v: "v \<in> set (xs @ [u])"
            from inv'(5) p have pX: "p \<in> set xs" by blast
            show "before p v (xs @ [u])"
            proof (cases "v \<in> set xs")
              case True
              with ex(7) p have "before p v xs" by blast
              then show ?thesis by (rule before_append)
            next
              case False
              with v have "v = u" by simp
              with pX show ?thesis by (simp add: before_last)
            qed
          qed
        qed
        have es: "set nbrs \<subseteq> set (edges_get adj u)"
          using nbrs by (simp add: edges_get_def)
        have pos: "\<forall>(v, w)\<in>set nbrs. f_zero ar \<le> w"
          using nn nbrs by (auto simp: nonneg_weights_def)
        have keys: "\<forall>(v, w)\<in>set nbrs. adj v \<noteq> None"
          using cl nbrs by (auto simp: closed_graph_def)
        from relax_total [OF laws i2 e2 _ _ es pos keys, of banned] cd
        obtain st' where rel: "relax ar d u banned nbrs (dists, prevs, ?pq) = Inr st'"
            and i3: "dj_inv ar adj start d (set (xs @ [u])) st'"
            and e3: "dj_extra adj (xs @ [u]) st'"
            and len: "length (snd (snd st')) \<le> length ?pq + length nbrs"
          by auto
        have "length (edges_get adj u) = length nbrs"
          using nbrs by (simp add: edges_get_def)
        with todo_expand [OF fin udom unew] len lpq
        have "todo adj (xs @ [u]) + length (snd (snd st')) < todo adj xs + length (snd (snd st))"
          by (simp add: st)
        from less.hyps [OF this i3 e3] False ng unfold nbrs rel show ?thesis
          by simp
      qed
    qed
  qed
qed

lemma distinct_prefix_unique:
  assumes "distinct (as @ c # bs)" and "as @ c # bs = as' @ c # bs'"
  shows "as = as'"
proof -
  from assms(1) have "c \<notin> set as" and "c \<notin> set bs" by simp_all
  from append_Cons_eq_iff [OF this, of as' bs'] assms(2) show ?thesis by blast
qed

lemma walk_back_member:
  assumes dp: "dom prevs = dom adj" and sub: "set xs \<subseteq> dom adj" and dist: "distinct xs"
    and pin: "\<forall>v p. prevs v = Some (Some p) \<longrightarrow> p \<in> set xs"
    and bef: "\<forall>v p. prevs v = Some (Some p) \<longrightarrow> v \<in> set xs \<longrightarrow> before p v xs"
  shows "xs = as @ c # bs \<Longrightarrow> \<exists>r. walk_back prevs (Some c) path = Some (Inr r)"
proof (induction "length as" arbitrary: as c bs path rule: less_induct)
  case less
  from less.prems have cin: "c \<in> set xs" by simp
  with sub dp obtain p where p: "prevs c = Some p" by blast
  show ?case
  proof (cases p)
    case None
    have "walk_back prevs (Some c) path = Some (Inr (path @ [c]))"
      by (subst walk_back.simps, simp add: p None, subst walk_back.simps, simp)
    then show ?thesis by blast
  next
    case (Some p')
    with bef p cin have "before p' c xs" by blast
    then obtain as' bs' where d: "xs = as' @ c # bs'" "p' \<in> set as'"
      unfolding before_def by blast
    from dist less.prems d(1) have "as = as'"
      by (intro distinct_prefix_unique [of as c bs as' bs']) simp_all
    with d(2) obtain a1 a2 where a: "as = a1 @ p' # a2"
      by (auto dest: split_list)
    with less.prems have "xs = a1 @ p' # (a2 @ c # bs)" by simp
    moreover from a have "length a1 < length as" by simp
    ultimately obtain r where "walk_back prevs (Some p') (path @ [c]) = Some (Inr r)"
      using less.hyps by blast
    then have "walk_back prevs (Some c) path = Some (Inr r)"
      by (subst walk_back.simps) (simp add: p Some)
    then show ?thesis by blast
  qed
qed

lemma walk_back_total:
  assumes inv: "dj_inv ar adj start m (set xs) (dists, prevs, pq)"
    and extra: "dj_extra adj xs (dists, prevs, pq)"
    and c: "c \<in> dom adj"
  shows "\<exists>r. walk_back prevs (Some c) path = Some (Inr r)"
proof -
  from inv have pin: "\<forall>v p. prevs v = Some (Some p) \<longrightarrow> p \<in> set xs"
    by (auto simp: dj_inv_def)
  from extra have ex: "distinct xs" "set xs \<subseteq> dom adj" "dom prevs = dom adj"
      "\<forall>v p. prevs v = Some (Some p) \<longrightarrow> v \<in> set xs \<longrightarrow> before p v xs"
    by (simp_all add: dj_extra_def)
  from c ex(3) obtain p where p: "prevs c = Some p" by blast
  show ?thesis
  proof (cases p)
    case None
    have "walk_back prevs (Some c) path = Some (Inr (path @ [c]))"
      by (subst walk_back.simps, simp add: p None, subst walk_back.simps, simp)
    then show ?thesis by blast
  next
    case (Some p')
    with pin p have "p' \<in> set xs" by blast
    then obtain as bs where "xs = as @ p' # bs"
      by (auto dest: split_list)
    from walk_back_member [OF ex(3,2,1) pin ex(4) this, of "path @ [c]"]
    obtain r where "walk_back prevs (Some p') (path @ [c]) = Some (Inr r)" by blast
    then have "walk_back prevs (Some c) path = Some (Inr r)"
      by (subst walk_back.simps) (simp add: p Some)
    then show ?thesis by blast
  qed
qed

lemma dj_extra_initial:
  "adj start \<noteq> None \<Longrightarrow>
   dj_extra adj [] ((map_option (\<lambda>_. far) \<circ> adj)(start \<mapsto> z),
                    map_option (\<lambda>_. None) \<circ> adj, [(z, start)])"
  by (auto simp: dj_extra_def dom_def split: if_splits)

text \<open>\<open>dijkstra\<close> returns a result on every such graph: the model is \<open>Some\<close> of an \<open>Inr\<close>.\<close>

lemma dijkstra_returns:
  assumes "float_laws ar"
    and "finite (dom adj)" and "nonneg_weights ar adj" and "closed_graph adj"
  shows "\<exists>c p. dijkstra ar adj start goal banned_arg = Some (Inr (c, p))"
proof (cases "start \<in> banned_set banned_arg \<or> goal \<in> banned_set banned_arg
               \<or> adj start = None \<or> adj goal = None")
  case True
  then have "dijkstra ar adj start goal banned_arg = Some (Inr (f_inf ar, []))"
    by (auto simp: dijkstra_def Let_def)
  then show ?thesis by blast
next
  case False
  then have guards: "start \<notin> banned_set banned_arg" "goal \<notin> banned_set banned_arg"
      "adj start \<noteq> None" "adj goal \<noteq> None"
    by simp_all
  let ?d0 = "(map_option (\<lambda>_. f_inf ar) \<circ> adj)(start \<mapsto> f_zero ar)"
  let ?p0 = "map_option (\<lambda>_. None) \<circ> adj"
  from dijkstra_loop_total [OF assms
      dj_inv_initial [OF assms(1), of adj start, folded set_simps(1)]
      dj_extra_initial [of adj start "f_inf ar" "f_zero ar", OF guards(3)],
      of goal "banned_set banned_arg"]
  obtain ds ps m xs pq
    where run: "dijkstra_loop ar adj goal (banned_set banned_arg) (?d0, ?p0, [(f_zero ar, start)])
                  = Some (Inr (ds, ps))"
      and inv: "dj_inv ar adj start m (set xs) (ds, ps, pq)"
      and extra: "dj_extra adj xs (ds, ps, pq)"
    by blast
  from extra have "dom ds = dom adj"
    by (simp add: dj_extra_def)
  with guards(4) obtain g where g: "ds goal = Some g" by blast
  from guards(4) have "goal \<in> dom adj" by blast
  from walk_back_total [OF inv extra this, of "[]"]
  obtain r where r: "walk_back ps (Some goal) [] = Some (Inr r)" by blast
  from guards run g r show ?thesis
    by (simp add: dijkstra_def Let_def del: not_None_eq)
qed

end
